theory Spec2Isabelle
  imports Complex_Main "HOL-Library.Sublist"
begin

section \<open>Data model (types.ts)\<close>

text \<open>
  JavaScript numbers are modelled as exact numbers: prices, amounts and fee rates as
  \<open>real\<close>, millisecond durations, timestamps and attempt counters as \<open>int\<close>.
  Strings are \<open>string\<close>. A rejected promise or a \<open>throw\<close> is a value of type
  \<open>Thrown\<close>; functions that may throw return it explicitly.
\<close>

datatype OrderType = Market

datatype DexName = Raydium | Meteora

datatype OrderStatus = Pending | Routing | Building | Submitted | Confirmed | Failed

record Order =
  orderId :: string
  orderType :: OrderType
  tokenIn :: string
  tokenOut :: string
  amount :: real
  slippageBps :: real
  createdAtMs :: int

record DexQuote =
  dex :: DexName
  price :: real
  feeRate :: real
  effectivePrice :: real

record RoutingDecision =
  raydium :: DexQuote
  meteora :: DexQuote
  chosen :: DexQuote

record SwapExecutionResult =
  swap_dex :: DexName
  executedPrice :: real
  txHash :: string

text \<open>
  \<open>OrderEvent\<close> is the tagged union of types.ts. Every variant carries the order
  identifier and \<open>tsMs\<close>; \<open>confirmed\<close> adds \<open>txHash\<close>, \<open>dex\<close> and
  \<open>executedPrice\<close>, \<open>failed\<close> adds \<open>error\<close>.
\<close>

datatype OrderEvent =
    EvPending string int
  | EvRouting string int
  | EvBuilding string int
  | EvSubmitted string int
  | EvConfirmed string int string DexName real
  | EvFailed string int string

fun status :: "OrderEvent \<Rightarrow> OrderStatus" where
  "status (EvPending _ _) = Pending"
| "status (EvRouting _ _) = Routing"
| "status (EvBuilding _ _) = Building"
| "status (EvSubmitted _ _) = Submitted"
| "status (EvConfirmed _ _ _ _ _) = Confirmed"
| "status (EvFailed _ _ _) = Failed"

fun event_orderId :: "OrderEvent \<Rightarrow> string" where
  "event_orderId (EvPending i _) = i"
| "event_orderId (EvRouting i _) = i"
| "event_orderId (EvBuilding i _) = i"
| "event_orderId (EvSubmitted i _) = i"
| "event_orderId (EvConfirmed i _ _ _ _) = i"
| "event_orderId (EvFailed i _ _) = i"

text \<open>
  A thrown value: an \<open>Error\<close> object with its message, or any other value with the
  text \<open>String(err)\<close> gives for it. \<open>thrown_message\<close> is the expression
  \<open>err instanceof Error ? err.message : String(err)\<close>.
\<close>

datatype Thrown = ErrorObj string | OtherValue string

fun thrown_message :: "Thrown \<Rightarrow> string" where
  "thrown_message (ErrorObj m) = m"
| "thrown_message (OtherValue s) = s"

section \<open>Venue router (dex/mockDexRouter.ts)\<close>

definition clamp :: "real \<Rightarrow> real \<Rightarrow> real \<Rightarrow> real" where
  "clamp n lo hi = max lo (min hi n)"

text \<open>
  \<open>stableBasePrice\<close> walks the UTF-16 code units of the seed
  \<open>tokenIn \<rightarrow> tokenOut\<close>; the arrow is the single code unit 8594. Token symbols are
  8-bit strings here, so their code units are \<open>of_char\<close>.
\<close>

fun seed_sum :: "nat list \<Rightarrow> nat \<Rightarrow> nat \<Rightarrow> nat" where
  "seed_sum [] i acc = acc"
| "seed_sum (c # cs) i acc = seed_sum cs (i + 1) ((acc + c * (i + 1)) mod 10000)"

definition seed_codes :: "string \<Rightarrow> string \<Rightarrow> nat list" where
  "seed_codes tin tout = map of_char tin @ [8594] @ map of_char tout"

definition stableBasePrice :: "string \<Rightarrow> string \<Rightarrow> real" where
  "stableBasePrice tin tout =
     0.75 + (real (seed_sum (seed_codes tin tout) 0 0) / 10000) * 0.5"

text \<open>
  The router object holds the injected \<open>random\<close> source and the uuid generator; both
  are oracles indexed by the number of calls made so far. Its mutable state counts those
  calls and records the calls of \<open>sleepFn\<close> and of the logger.
\<close>

record MockDexRouter =
  rand :: "nat \<Rightarrow> real"
  uuidv4_hex :: "nat \<Rightarrow> string"

record RouterState =
  rand_calls :: nat
  uuid_calls :: nat
  router_sleeps :: "int list"
  routing_logs :: "(string \<times> DexName \<times> real) list"

definition sleepFn :: "int \<Rightarrow> RouterState \<Rightarrow> RouterState" where
  "sleepFn ms s = s\<lparr>router_sleeps := router_sleeps s @ [ms]\<rparr>"

definition next_rand :: "MockDexRouter \<Rightarrow> RouterState \<Rightarrow> real \<times> RouterState" where
  "next_rand rt s = (rand rt (rand_calls s), s\<lparr>rand_calls := rand_calls s + 1\<rparr>)"

definition getQuote ::
  "MockDexRouter \<Rightarrow> DexName \<Rightarrow> string \<Rightarrow> string \<Rightarrow> real \<Rightarrow> RouterState \<Rightarrow> DexQuote \<times> RouterState"
where
  "getQuote rt d tin tout amt s =
     (let s1 = sleepFn 200 s;
          base = stableBasePrice tin tout;
          amountFactor = clamp (1 - amt * 0.00001) 0.9 1
      in if d = Raydium then
           (let (r, s2) = next_rand rt s1;
                variance = 0.98 + r * 0.04;
                p = base * variance * amountFactor;
                fee = 0.003
            in (\<lparr>dex = d, price = p, feeRate = fee, effectivePrice = p * (1 - fee)\<rparr>, s2))
         else
           (let (r, s2) = next_rand rt s1;
                variance = 0.97 + r * 0.05;
                p = base * variance * amountFactor;
                fee = 0.002
            in (\<lparr>dex = d, price = p, feeRate = fee, effectivePrice = p * (1 - fee)\<rparr>, s2)))"

definition getRaydiumQuote ::
  "MockDexRouter \<Rightarrow> string \<Rightarrow> string \<Rightarrow> real \<Rightarrow> RouterState \<Rightarrow> DexQuote \<times> RouterState"
where
  "getRaydiumQuote rt tin tout amt s = getQuote rt Raydium tin tout amt s"

definition getMeteoraQuote ::
  "MockDexRouter \<Rightarrow> string \<Rightarrow> string \<Rightarrow> real \<Rightarrow> RouterState \<Rightarrow> DexQuote \<times> RouterState"
where
  "getMeteoraQuote rt tin tout amt s = getQuote rt Meteora tin tout amt s"

text \<open>
  \<open>route\<close> starts both quotes with \<open>Promise.all\<close>; each waits for its \<open>sleepFn\<close>
  before it draws its random number, so Raydium draws first and Meteora second.
\<close>

definition route :: "MockDexRouter \<Rightarrow> Order \<Rightarrow> RouterState \<Rightarrow> RoutingDecision \<times> RouterState" where
  "route rt order s =
     (let (ray, s1) = getRaydiumQuote rt (tokenIn order) (tokenOut order) (amount order) s;
          (met, s2) = getMeteoraQuote rt (tokenIn order) (tokenOut order) (amount order) s1;
          ch = (if effectivePrice ray \<ge> effectivePrice met then ray else met);
          s3 = s2\<lparr>routing_logs := routing_logs s2 @ [(orderId order, dex ch, effectivePrice ch)]\<rparr>
      in (\<lparr>raydium = ray, meteora = met, chosen = ch\<rparr>, s3))"

definition executeSwap ::
  "MockDexRouter \<Rightarrow> DexName \<Rightarrow> Order \<Rightarrow> real \<Rightarrow> RouterState \<Rightarrow> SwapExecutionResult \<times> RouterState"
where
  "executeSwap rt d order quotedPrice s =
     (let (r1, s1) = next_rand rt s;
          s2 = sleepFn (2000 + \<lfloor>r1 * 1000\<rfloor>) s1;
          (r2, s3) = next_rand rt s2;
          drift = 0.995 + r2 * 0.01;
          ex = quotedPrice * drift;
          s4 = s3\<lparr>uuid_calls := uuid_calls s3 + 1\<rparr>
      in (\<lparr>swap_dex = d, executedPrice = ex,
           txHash = ''mocktx_'' @ uuidv4_hex rt (uuid_calls s3)\<rparr>, s4))"

section \<open>Retry schedule (queue/orderWorker.ts)\<close>

definition ORDER_MAX_ATTEMPTS :: int where
  "ORDER_MAX_ATTEMPTS = 3"

definition ORDER_BACKOFF_BASE_MS :: int where
  "ORDER_BACKOFF_BASE_MS = 1000"

definition computeExponentialBackoffMs :: "int \<Rightarrow> int \<Rightarrow> int" where
  "computeExponentialBackoffMs attempt baseMs =
     (let exponent = max 0 (attempt - 2) in baseMs * 2 ^ nat exponent)"


section \<open>Active-order store and event bus (services/orderService.ts)\<close>

text \<open>
  \<open>InMemoryActiveOrderStore\<close>: two maps keyed by order identifier. The time to live is
  ignored by this implementation, as in the source.
\<close>

record InMemoryActiveOrderStore =
  orders :: "string \<rightharpoonup> Order"
  events :: "string \<rightharpoonup> OrderEvent list"

definition putActiveOrder :: "Order \<Rightarrow> InMemoryActiveOrderStore \<Rightarrow> InMemoryActiveOrderStore" where
  "putActiveOrder order st =
     (let st1 = st\<lparr>orders := (orders st)(orderId order \<mapsto> order)\<rparr>
      in if events st1 (orderId order) = None
         then st1\<lparr>events := (events st1)(orderId order \<mapsto> [])\<rparr> else st1)"

definition getActiveOrder :: "InMemoryActiveOrderStore \<Rightarrow> string \<Rightarrow> Order option" where
  "getActiveOrder st oid = orders st oid"

definition listEvents :: "InMemoryActiveOrderStore \<Rightarrow> string \<Rightarrow> OrderEvent list" where
  "listEvents st oid = (case events st oid of None \<Rightarrow> [] | Some l \<Rightarrow> l)"

definition appendEvent :: "string \<Rightarrow> OrderEvent \<Rightarrow> InMemoryActiveOrderStore \<Rightarrow> InMemoryActiveOrderStore" where
  "appendEvent oid ev st = st\<lparr>events := (events st)(oid \<mapsto> listEvents st oid @ [ev])\<rparr>"

definition clear :: "string \<Rightarrow> InMemoryActiveOrderStore \<Rightarrow> InMemoryActiveOrderStore" where
  "clear oid st = st\<lparr>orders := (orders st)(oid := None), events := (events st)(oid := None)\<rparr>"

text \<open>
  \<open>InMemoryEventBus\<close>: a map from order identifier to a \<open>Set\<close> of handler functions.
  A handler is named by a number (the identity of the function object); the \<open>Set\<close> is the
  list of its members in insertion order, without repetition. Calling handler \<open>h\<close> with
  event \<open>ev\<close> is recorded as the pair \<open>(h, ev)\<close> at the end of \<open>delivered\<close>, so the
  events one subscriber receives are the second components of its pairs, in order.
\<close>

record InMemoryEventBus =
  handlers :: "string \<rightharpoonup> nat list"
  delivered :: "(nat \<times> OrderEvent) list"

definition set_add :: "nat \<Rightarrow> nat list \<Rightarrow> nat list" where
  "set_add h hs = (if h \<in> set hs then hs else hs @ [h])"

definition set_delete :: "nat \<Rightarrow> nat list \<Rightarrow> nat list" where
  "set_delete h hs = filter (\<lambda>x. x \<noteq> h) hs"

definition call_handlers :: "nat list \<Rightarrow> OrderEvent \<Rightarrow> (nat \<times> OrderEvent) list" where
  "call_handlers hs ev = map (\<lambda>h. (h, ev)) hs"

definition publish :: "string \<Rightarrow> OrderEvent \<Rightarrow> InMemoryEventBus \<Rightarrow> InMemoryEventBus" where
  "publish oid ev b =
     (case handlers b oid of
        None \<Rightarrow> b
      | Some hs \<Rightarrow> b\<lparr>delivered := delivered b @ call_handlers hs ev\<rparr>)"

definition subscribe :: "string \<Rightarrow> nat \<Rightarrow> InMemoryEventBus \<Rightarrow> InMemoryEventBus" where
  "subscribe oid h b =
     (let hs = (case handlers b oid of None \<Rightarrow> [] | Some hs \<Rightarrow> hs)
      in b\<lparr>handlers := (handlers b)(oid \<mapsto> set_add h hs)\<rparr>)"

definition unsubscribe :: "string \<Rightarrow> nat \<Rightarrow> InMemoryEventBus \<Rightarrow> InMemoryEventBus" where
  "unsubscribe oid h b =
     (case handlers b oid of
        None \<Rightarrow> b
      | Some cur \<Rightarrow> b\<lparr>handlers := (handlers b)(oid \<mapsto> set_delete h cur)\<rparr>)"

definition close :: "InMemoryEventBus \<Rightarrow> InMemoryEventBus" where
  "close b = b\<lparr>handlers := Map.empty\<rparr>"

section \<open>Durable order history (db/index.ts)\<close>

text \<open>One row of \<open>order_history\<close>, keyed by \<open>order_id\<close> in the map that holds the table.\<close>

record OrderRow =
  order_type :: OrderType
  token_in :: string
  token_out :: string
  row_amount :: real
  slippage_bps :: real
  row_status :: OrderStatus
  dex_chosen :: "DexName option"
  executed_price :: "real option"
  tx_hash :: "string option"
  failure_reason :: "string option"
  created_at_ms :: int
  updated_at_ms :: int

type_synonym PgDb = "string \<rightharpoonup> OrderRow"

text \<open>
  The server converts each parameter of the \<open>INSERT\<close> to the type of its column before
  the statement runs, and rejects the statement when it cannot. A number is sent as the
  text \<open>String(x)\<close>. The column \<open>slippage_bps\<close> is \<open>INTEGER\<close>: its parameter must be
  the decimal digits of an integer (so not a fraction, and not at or above \<open>10\<^sup>2\<^sup>1\<close> in
  size, from where \<open>String\<close> writes an exponent) within the range of a 32-bit integer.
  The other parameters are taken to fit their columns: the texts, the amount (any finite
  number fits \<open>NUMERIC\<close>) and the timestamps of \<open>Date.now()\<close>. The error is the class
  of the server's error.
\<close>

datatype PgError = InvalidTextRepresentation | NumericValueOutOfRange

definition pg_integer_param :: "real \<Rightarrow> PgError option" where
  "pg_integer_param x =
     (if of_int \<lfloor>x\<rfloor> \<noteq> x \<or> \<bar>x\<bar> \<ge> 10 ^ 21 then Some InvalidTextRepresentation
      else if x < - 2147483648 \<or> 2147483647 < x then Some NumericValueOutOfRange
      else None)"

text \<open>The row the \<open>INSERT\<close> writes.\<close>

definition order_row :: "Order \<Rightarrow> OrderRow" where
  "order_row order =
     \<lparr>order_type = orderType order, token_in = tokenIn order, token_out = tokenOut order,
      row_amount = amount order, slippage_bps = slippageBps order, row_status = Pending,
      dex_chosen = None, executed_price = None, tx_hash = None, failure_reason = None,
      created_at_ms = createdAtMs order, updated_at_ms = createdAtMs order\<rparr>"

text \<open>
  \<open>insertOrder\<close> rejects with the server's error when a parameter is refused; otherwise
  it adds the row, unless the identifier is taken (\<open>ON CONFLICT DO NOTHING\<close>).
\<close>

definition insertOrder :: "Order \<Rightarrow> PgDb \<Rightarrow> PgError + PgDb" where
  "insertOrder order t =
     (case pg_integer_param (slippageBps order) of
        Some err \<Rightarrow> Inl err
      | None \<Rightarrow>
          (case t (orderId order) of
             Some _ \<Rightarrow> Inr t
           | None \<Rightarrow> Inr (t(orderId order \<mapsto> order_row order))))"

definition finalizeOrder :: "string \<Rightarrow> DexName \<Rightarrow> real \<Rightarrow> string \<Rightarrow> int \<Rightarrow> PgDb \<Rightarrow> PgDb" where
  "finalizeOrder oid d ep tx upd t =
     (case t oid of
        None \<Rightarrow> t
      | Some r \<Rightarrow> t(oid \<mapsto> r\<lparr>row_status := Confirmed, dex_chosen := Some d,
                              executed_price := Some ep, tx_hash := Some tx,
                              failure_reason := None, updated_at_ms := upd\<rparr>))"

definition failOrder :: "string \<Rightarrow> string \<Rightarrow> int \<Rightarrow> PgDb \<Rightarrow> PgDb" where
  "failOrder oid reason upd t =
     (case t oid of
        None \<Rightarrow> t
      | Some r \<Rightarrow> t(oid \<mapsto> r\<lparr>row_status := Failed, failure_reason := Some reason,
                              updated_at_ms := upd\<rparr>))"

section \<open>The world the worker and the submission path act on\<close>

text \<open>
  Every call that a component makes on a collaborator is also written to \<open>trace\<close>, in
  call order, so that the order of effects on different collaborators can be stated.
\<close>

datatype Action =
    CallPutActiveOrder string
  | CallInsertOrder string
  | CallEnqueue string
  | CallAppendEvent string OrderEvent
  | CallPublish string OrderEvent
  | CallFinalizeOrder string DexName real string int
  | CallFailOrder string string int
  | CallSleep int
  | CallWarnRetry int int int string
  | CallLogInfo string string

text \<open>
  \<open>clock\<close> is \<open>Date.now()\<close> and \<open>uuidv4\<close> the identifier generator, both oracles
  indexed by the number of calls so far. \<open>router_state\<close> is the state of the injected
  router, which has no access to the rest of the world.
\<close>

record 'r World =
  store :: InMemoryActiveOrderStore
  bus :: InMemoryEventBus
  db :: PgDb
  queue_jobs :: "string list"
  sleeps :: "int list"
  trace :: "Action list"
  clock :: "nat \<Rightarrow> int"
  clock_calls :: nat
  uuidv4 :: "nat \<Rightarrow> string"
  uuidv4_calls :: nat
  router_state :: 'r

definition nowMs :: "'r World \<Rightarrow> int \<times> 'r World" where
  "nowMs w = (clock w (clock_calls w), w\<lparr>clock_calls := clock_calls w + 1\<rparr>)"

definition log_call :: "Action \<Rightarrow> 'r World \<Rightarrow> 'r World" where
  "log_call a w = w\<lparr>trace := trace w @ [a]\<rparr>"

definition w_appendEvent :: "string \<Rightarrow> OrderEvent \<Rightarrow> 'r World \<Rightarrow> 'r World" where
  "w_appendEvent oid ev w = log_call (CallAppendEvent oid ev) (w\<lparr>store := appendEvent oid ev (store w)\<rparr>)"

definition w_publish :: "string \<Rightarrow> OrderEvent \<Rightarrow> 'r World \<Rightarrow> 'r World" where
  "w_publish oid ev w = log_call (CallPublish oid ev) (w\<lparr>bus := publish oid ev (bus w)\<rparr>)"

definition w_sleep :: "int \<Rightarrow> 'r World \<Rightarrow> 'r World" where
  "w_sleep ms w = log_call (CallSleep ms) (w\<lparr>sleeps := sleeps w @ [ms]\<rparr>)"

section \<open>Order worker (queue/orderWorker.ts)\<close>

definition lastStatus :: "OrderEvent list \<Rightarrow> OrderStatus option" where
  "lastStatus evs = (if length evs = 0 then None else Some (status (evs ! (length evs - 1))))"

definition emitEvent :: "OrderEvent \<Rightarrow> 'r World \<Rightarrow> 'r World" where
  "emitEvent ev w = w_publish (event_orderId ev) ev (w_appendEvent (event_orderId ev) ev w)"

definition hasStatus :: "OrderEvent list \<Rightarrow> OrderStatus \<Rightarrow> bool" where
  "hasStatus evs st = list_ex (\<lambda>e. status e = st) evs"

text \<open>
  The injected dependencies that are functions: the router's two methods, each acting on
  the router's own state and either throwing or returning.
\<close>

record 'r OrderWorkerDeps =
  router_route :: "Order \<Rightarrow> 'r \<Rightarrow> (Thrown + RoutingDecision) \<times> 'r"
  router_executeSwap :: "DexName \<Rightarrow> Order \<Rightarrow> real \<Rightarrow> 'r \<Rightarrow> (Thrown + SwapExecutionResult) \<times> 'r"

text \<open>
  \<open>processOrderOnce\<close> returns \<open>None\<close> when the promise resolves and \<open>Some err\<close> when
  it rejects with \<open>err\<close>. The store, the bus, the sleeper and the database never throw in
  this model; the router may.
\<close>

text \<open>
  \<open>emit_unless recorded mk\<close> is the guarded emission that the source writes out for each
  step: \<open>if (!hasStatus(events, s)) await emitEvent({... tsMs: nowMs()})\<close>.
\<close>

definition emit_unless :: "bool \<Rightarrow> (int \<Rightarrow> OrderEvent) \<Rightarrow> 'r World \<Rightarrow> 'r World" where
  "emit_unless recorded mk w =
     (if \<not> recorded then (let (t, w1) = nowMs w in emitEvent (mk t) w1) else w)"

definition processOrderOnce :: "'r OrderWorkerDeps \<Rightarrow> Order \<Rightarrow> 'r World \<Rightarrow> Thrown option \<times> 'r World" where
  "processOrderOnce deps order w =
     (let oid = orderId order;
          evs = listEvents (store w) oid;
          last = lastStatus evs
      in if last = Some Confirmed \<or> last = Some Failed then (None, w)
         else
           (let w1 = emit_unless (hasStatus evs Routing) (EvRouting oid) w
            in case router_route deps order (router_state w1) of
                 (Inl err, r1) \<Rightarrow> (Some err, w1\<lparr>router_state := r1\<rparr>)
               | (Inr decision, r1) \<Rightarrow>
                   (let w2 = w1\<lparr>router_state := r1\<rparr>;
                        w3 = emit_unless (hasStatus evs Building) (EvBuilding oid) w2;
                        w4 = w_sleep 150 w3;
                        w5 = emit_unless (hasStatus evs Submitted) (EvSubmitted oid) w4
                    in case router_executeSwap deps (dex (chosen decision)) order
                              (price (chosen decision)) (router_state w5) of
                         (Inl err, r2) \<Rightarrow> (Some err, w5\<lparr>router_state := r2\<rparr>)
                       | (Inr exec, r2) \<Rightarrow>
                           (let w6 = w5\<lparr>router_state := r2\<rparr>;
                                (updatedAtMs, w7) = nowMs w6;
                                w8 = log_call (CallFinalizeOrder oid (swap_dex exec) (executedPrice exec)
                                                 (txHash exec) updatedAtMs)
                                       (w7\<lparr>db := finalizeOrder oid (swap_dex exec) (executedPrice exec)
                                                    (txHash exec) updatedAtMs (db w7)\<rparr>);
                                afterEvents = listEvents (store w8) oid
                            in (None,
                                if \<not> hasStatus afterEvents Confirmed
                                then emitEvent (EvConfirmed oid updatedAtMs (txHash exec)
                                                  (swap_dex exec) (executedPrice exec)) w8
                                else w8)))))"

text \<open>
  The attempt loop of \<open>runWithRetries\<close>, started at \<open>attempt = 1\<close>. Leaving the loop
  without a return resolves the promise.
\<close>

function retry_loop ::
  "int \<Rightarrow> int \<Rightarrow> (int \<Rightarrow> 'r World \<Rightarrow> Thrown option \<times> 'r World) \<Rightarrow> int \<Rightarrow> 'r World
     \<Rightarrow> Thrown option \<times> 'r World"
where
  "retry_loop maxAttempts baseBackoffMs run attempt w =
     (if attempt \<le> maxAttempts then
        (case run attempt w of
           (None, w1) \<Rightarrow> (None, w1)
         | (Some err, w1) \<Rightarrow>
             (let msg = thrown_message err;
                  isFinal = (attempt \<ge> maxAttempts)
              in if isFinal then (Some err, w1)
                 else
                   (let waitMs = computeExponentialBackoffMs (attempt + 1) baseBackoffMs;
                        w2 = log_call (CallWarnRetry attempt (attempt + 1) waitMs msg) w1;
                        w3 = w_sleep waitMs w2
                    in retry_loop maxAttempts baseBackoffMs run (attempt + 1) w3)))
      else (None, w))"
  by pat_completeness auto
termination
  by (relation "measure (\<lambda>(m, b, run, a, w). nat (m + 1 - a))") auto

declare retry_loop.simps [simp del]

definition runWithRetries ::
  "int \<Rightarrow> int \<Rightarrow> (int \<Rightarrow> 'r World \<Rightarrow> Thrown option \<times> 'r World) \<Rightarrow> 'r World \<Rightarrow> Thrown option \<times> 'r World"
where
  "runWithRetries maxAttempts baseBackoffMs run w = retry_loop maxAttempts baseBackoffMs run 1 w"

definition executeOrderJob :: "'r OrderWorkerDeps \<Rightarrow> string \<Rightarrow> 'r World \<Rightarrow> Thrown option \<times> 'r World" where
  "executeOrderJob deps oid w =
     (case getActiveOrder (store w) oid of
        None \<Rightarrow> (Some (ErrorObj (''Active order not found: '' @ oid)), w)
      | Some order \<Rightarrow>
          (case runWithRetries ORDER_MAX_ATTEMPTS ORDER_BACKOFF_BASE_MS
                  (\<lambda>attempt. processOrderOnce deps order) w of
             (None, w1) \<Rightarrow> (None, w1)
           | (Some err, w1) \<Rightarrow>
               (let failureReason = thrown_message err;
                    (updatedAtMs, w2) = nowMs w1;
                    w3 = log_call (CallFailOrder oid failureReason updatedAtMs)
                           (w2\<lparr>db := failOrder oid failureReason updatedAtMs (db w2)\<rparr>);
                    evs = listEvents (store w3) oid
                in (Some err,
                    if \<not> hasStatus evs Failed
                    then emitEvent (EvFailed oid updatedAtMs failureReason) w3
                    else w3))))"


section \<open>Submission path (api/orders.ts)\<close>

text \<open>
  The request body is an arbitrary parsed JSON value. \<open>JsNonFinite\<close> stands for the
  numbers \<open>NaN\<close> and \<open>\<plusminus>Infinity\<close>. An object is the list of its properties; an
  array is an object too, without any of the properties the handler reads.
\<close>

datatype JsValue =
    JsUndefined
  | JsNull
  | JsBool bool
  | JsNumber real
  | JsNonFinite
  | JsString string
  | JsArray "JsValue list"
  | JsObject "(string \<times> JsValue) list"

record ExecuteOrderRequest =
  req_tokenIn :: string
  req_tokenOut :: string
  req_amount :: real
  req_slippageBps :: real

definition js_whitespace :: "char \<Rightarrow> bool" where
  "js_whitespace c = ((of_char c :: nat) \<in> {9, 10, 11, 12, 13, 32, 160})"

definition isNonEmptyString :: "JsValue \<Rightarrow> bool" where
  "isNonEmptyString v =
     (case v of JsString s \<Rightarrow> list_ex (\<lambda>c. \<not> js_whitespace c) s | _ \<Rightarrow> False)"

definition isFiniteNumber :: "JsValue \<Rightarrow> bool" where
  "isFiniteNumber v = (case v of JsNumber _ \<Rightarrow> True | _ \<Rightarrow> False)"

definition js_prop :: "JsValue \<Rightarrow> string \<Rightarrow> JsValue" where
  "js_prop b k =
     (case b of
        JsObject ps \<Rightarrow> (case map_of ps k of None \<Rightarrow> JsUndefined | Some v \<Rightarrow> v)
      | _ \<Rightarrow> JsUndefined)"

definition js_string :: "JsValue \<Rightarrow> string" where
  "js_string v = (case v of JsString s \<Rightarrow> s | _ \<Rightarrow> [])"

definition js_number :: "JsValue \<Rightarrow> real" where
  "js_number v = (case v of JsNumber x \<Rightarrow> x | _ \<Rightarrow> 0)"

definition is_object :: "JsValue \<Rightarrow> bool" where
  "is_object b = (case b of JsObject _ \<Rightarrow> True | JsArray _ \<Rightarrow> True | _ \<Rightarrow> False)"

definition validateExecuteOrder :: "JsValue \<Rightarrow> string + ExecuteOrderRequest" where
  "validateExecuteOrder b =
     (if \<not> is_object b then Inl ''Body must be a JSON object''
      else if \<not> isNonEmptyString (js_prop b ''tokenIn'') then Inl ''tokenIn is required''
      else if \<not> isNonEmptyString (js_prop b ''tokenOut'') then Inl ''tokenOut is required''
      else if \<not> isFiniteNumber (js_prop b ''amount'') \<or> js_number (js_prop b ''amount'') \<le> 0
        then Inl ''amount must be a positive number''
      else if \<not> isFiniteNumber (js_prop b ''slippageBps'')
              \<or> js_number (js_prop b ''slippageBps'') < 0
              \<or> js_number (js_prop b ''slippageBps'') > 10000
        then Inl ''slippageBps must be between 0 and 10000''
      else Inr \<lparr>req_tokenIn = js_string (js_prop b ''tokenIn''),
                req_tokenOut = js_string (js_prop b ''tokenOut''),
                req_amount = js_number (js_prop b ''amount''),
                req_slippageBps = js_number (js_prop b ''slippageBps'')\<rparr>)"

definition emitPending :: "string \<Rightarrow> 'r World \<Rightarrow> 'r World" where
  "emitPending oid w =
     (let (t, w1) = nowMs w;
          event = EvPending oid t
      in w_publish oid event (w_appendEvent oid event w1))"

definition enqueue :: "string \<Rightarrow> 'r World \<Rightarrow> 'r World" where
  "enqueue oid w = log_call (CallEnqueue oid) (w\<lparr>queue_jobs := queue_jobs w @ [oid]\<rparr>)"

definition next_uuid :: "'r World \<Rightarrow> string \<times> 'r World" where
  "next_uuid w = (uuidv4 w (uuidv4_calls w), w\<lparr>uuidv4_calls := uuidv4_calls w + 1\<rparr>)"

text \<open>
  The handler of \<open>POST /api/orders/execute\<close>. The reply carries the status code and, on
  success, the order identifier; the \<open>wsUrl\<close> computed from the request headers is left
  out. The handler catches nothing: when \<open>insertOrder\<close> rejects, the handler ends there
  and the framework answers with status 500 and the error. The order put in the active
  store before stays there.
\<close>

datatype Reply = Reply400 string | Reply500 PgError | Reply200 string

definition post_execute :: "JsValue \<Rightarrow> 'r World \<Rightarrow> Reply \<times> 'r World" where
  "post_execute body w =
     (case validateExecuteOrder body of
        Inl err \<Rightarrow> (Reply400 err, w)
      | Inr v \<Rightarrow>
          (let (oid, w1) = next_uuid w;
               (created, w2) = nowMs w1;
               order = \<lparr>orderId = oid, orderType = Market, tokenIn = req_tokenIn v,
                        tokenOut = req_tokenOut v, amount = req_amount v,
                        slippageBps = req_slippageBps v, createdAtMs = created\<rparr>;
               w3 = log_call (CallPutActiveOrder oid) (w2\<lparr>store := putActiveOrder order (store w2)\<rparr>);
               w4 = log_call (CallInsertOrder oid) w3
           in case insertOrder order (db w4) of
                Inl err \<Rightarrow> (Reply500 err, w4)
              | Inr t \<Rightarrow>
                  (let w5 = enqueue oid (w4\<lparr>db := t\<rparr>);
                       w6 = emitPending oid w5;
                       w7 = log_call (CallLogInfo ''order.submitted'' oid) w6
                   in (Reply200 oid, w7))))"

text \<open>Positions in a trace: \<open>a\<close> occurs, and occurs before the first \<open>b\<close>.\<close>

fun precedes :: "Action \<Rightarrow> Action \<Rightarrow> Action list \<Rightarrow> bool" where
  "precedes a b [] = False"
| "precedes a b (x # xs) = (if x = a then True else if x = b then False else precedes a b xs)"

fun published_events :: "Action list \<Rightarrow> OrderEvent list" where
  "published_events [] = []"
| "published_events (CallPublish oid ev # xs) = ev # published_events xs"
| "published_events (x # xs) = published_events xs"

fun appended_events :: "Action list \<Rightarrow> OrderEvent list" where
  "appended_events [] = []"
| "appended_events (CallAppendEvent oid ev # xs) = ev # appended_events xs"
| "appended_events (x # xs) = appended_events xs"

section \<open>Channel-based event bus (RedisPubSubEventBus)\<close>

text \<open>
  The bus holds two connections to the Redis server: \<open>pub\<close> for commands and \<open>sub\<close> in
  subscriber mode. The server side of the channel is the set of channels \<open>sub\<close> is
  subscribed to. A \<open>PUBLISH\<close> hands the message to the \<open>message\<close> listener of every
  subscribed connection before the command completes; a connection that has
  \<open>quit\<close> receives nothing and rejects every further command. The message is the
  JSON text of the event, which \<open>JSON.parse\<close> turns back into the same event.
\<close>

record RedisPubSubEventBus =
  r_handlers :: "string \<rightharpoonup> nat list"
  sub_channels :: "string set"
  sub_open :: bool
  pub_open :: bool
  r_delivered :: "(nat \<times> OrderEvent) list"

definition channel :: "string \<Rightarrow> string" where
  "channel oid = ''order-events:'' @ oid"

definition channel_orderId :: "string \<Rightarrow> string" where
  "channel_orderId ch = (if take 13 ch = ''order-events:'' then drop 13 ch else ch)"

definition connection_closed :: Thrown where
  "connection_closed = ErrorObj ''Connection is closed.''"

definition on_message :: "string \<Rightarrow> OrderEvent \<Rightarrow> RedisPubSubEventBus \<Rightarrow> RedisPubSubEventBus" where
  "on_message ch message b =
     (let oid = channel_orderId ch;
          ev = message
      in case r_handlers b oid of
           None \<Rightarrow> b
         | Some hs \<Rightarrow> b\<lparr>r_delivered := r_delivered b @ call_handlers hs ev\<rparr>)"

definition r_publish ::
  "string \<Rightarrow> OrderEvent \<Rightarrow> RedisPubSubEventBus \<Rightarrow> Thrown option \<times> RedisPubSubEventBus" where
  "r_publish oid ev b =
     (if \<not> pub_open b then (Some connection_closed, b)
      else if sub_open b \<and> channel oid \<in> sub_channels b
        then (None, on_message (channel oid) ev b)
      else (None, b))"

definition r_subscribe ::
  "string \<Rightarrow> nat \<Rightarrow> RedisPubSubEventBus \<Rightarrow> Thrown option \<times> RedisPubSubEventBus" where
  "r_subscribe oid h b =
     (let hs = (case r_handlers b oid of None \<Rightarrow> [] | Some hs \<Rightarrow> hs);
          wasEmpty = (length hs = 0);
          b1 = b\<lparr>r_handlers := (r_handlers b)(oid \<mapsto> set_add h hs)\<rparr>
      in if wasEmpty then
           (if \<not> sub_open b1 then (Some connection_closed, b1)
            else (None, b1\<lparr>sub_channels := insert (channel oid) (sub_channels b1)\<rparr>))
         else (None, b1))"

definition r_unsubscribe ::
  "string \<Rightarrow> nat \<Rightarrow> RedisPubSubEventBus \<Rightarrow> Thrown option \<times> RedisPubSubEventBus" where
  "r_unsubscribe oid h b =
     (case r_handlers b oid of
        None \<Rightarrow> (None, b)
      | Some cur \<Rightarrow>
          (let cur1 = set_delete h cur;
               b1 = b\<lparr>r_handlers := (r_handlers b)(oid \<mapsto> cur1)\<rparr>
           in if length cur1 = 0 then
                (if \<not> sub_open b1 then (Some connection_closed, b1)
                 else (None, b1\<lparr>sub_channels := sub_channels b1 - {channel oid}\<rparr>))
              else (None, b1)))"

definition r_close :: "RedisPubSubEventBus \<Rightarrow> RedisPubSubEventBus" where
  "r_close b = b\<lparr>r_handlers := Map.empty, sub_channels := {}, sub_open := False, pub_open := False\<rparr>"

text \<open>A client of the \<open>EventBus\<close> interface: the same operations drive either bus.\<close>

datatype BusOp =
    Subscribe string nat
  | Publish string OrderEvent
  | Unsubscribe string nat
  | Close

fun mem_step :: "InMemoryEventBus \<Rightarrow> BusOp \<Rightarrow> InMemoryEventBus" where
  "mem_step b (Subscribe oid h) = subscribe oid h b"
| "mem_step b (Publish oid ev) = publish oid ev b"
| "mem_step b (Unsubscribe oid h) = unsubscribe oid h b"
| "mem_step b Close = close b"

fun redis_step :: "RedisPubSubEventBus \<Rightarrow> BusOp \<Rightarrow> RedisPubSubEventBus" where
  "redis_step b (Subscribe oid h) = snd (r_subscribe oid h b)"
| "redis_step b (Publish oid ev) = snd (r_publish oid ev b)"
| "redis_step b (Unsubscribe oid h) = snd (r_unsubscribe oid h b)"
| "redis_step b Close = r_close b"

definition mem_new :: InMemoryEventBus where
  "mem_new = \<lparr>handlers = Map.empty, delivered = []\<rparr>"

definition redis_new :: RedisPubSubEventBus where
  "redis_new = \<lparr>r_handlers = Map.empty, sub_channels = {}, sub_open = True, pub_open = True,
                r_delivered = []\<rparr>"

definition received :: "nat \<Rightarrow> (nat \<times> OrderEvent) list \<Rightarrow> OrderEvent list" where
  "received h ds = map snd (filter (\<lambda>d. fst d = h) ds)"

definition mem_received :: "BusOp list \<Rightarrow> nat \<Rightarrow> OrderEvent list" where
  "mem_received ops h = received h (delivered (foldl mem_step mem_new ops))"

definition redis_received :: "BusOp list \<Rightarrow> nat \<Rightarrow> OrderEvent list" where
  "redis_received ops h = received h (r_delivered (foldl redis_step redis_new ops))"

text \<open>
  The interface allows no publish and no subscribe after \<open>close\<close>. Of the two, only a
  subscribe after \<open>close\<close> has to be excluded for the two buses to agree.
\<close>

fun is_subscribe :: "BusOp \<Rightarrow> bool" where
  "is_subscribe (Subscribe _ _) = True"
| "is_subscribe _ = False"

fun no_subscribe_after_close :: "BusOp list \<Rightarrow> bool" where
  "no_subscribe_after_close [] = True"
| "no_subscribe_after_close (Close # ops) = list_all (\<lambda>op. \<not> is_subscribe op) ops"
| "no_subscribe_after_close (_ # ops) = no_subscribe_after_close ops"


section \<open>Lifecycle streaming gateway (ws/orderSocket.ts)\<close>

fun statusRank :: "OrderStatus \<Rightarrow> int" where
  "statusRank Pending = 1"
| "statusRank Routing = 2"
| "statusRank Building = 3"
| "statusRank Submitted = 4"
| "statusRank Confirmed = 5"
| "statusRank Failed = 6"

definition sortByLifecycle :: "OrderEvent \<Rightarrow> OrderEvent \<Rightarrow> int" where
  "sortByLifecycle a b = statusRank (status a) - statusRank (status b)"

text \<open>
  \<open>Array.prototype.sort\<close> with a comparator is a stable sort: elements that compare
  equal keep their order. \<open>js_sort\<close> is the stable insertion sort by the comparator.
\<close>

fun insert_by :: "('a \<Rightarrow> 'a \<Rightarrow> int) \<Rightarrow> 'a \<Rightarrow> 'a list \<Rightarrow> 'a list" where
  "insert_by cmp x [] = [x]"
| "insert_by cmp x (y # ys) = (if cmp x y \<le> 0 then x # y # ys else y # insert_by cmp x ys)"

definition js_sort :: "('a \<Rightarrow> 'a \<Rightarrow> int) \<Rightarrow> 'a list \<Rightarrow> 'a list" where
  "js_sort cmp xs = foldr (insert_by cmp) xs []"

text \<open>
  The state of one connection: the closure variables \<open>sent\<close>, \<open>backlogFlushed\<close> and
  \<open>buffer\<close>, whether the socket's \<open>readyState\<close> is \<open>OPEN\<close>, and the messages written
  to the socket so far.
\<close>

record Conn =
  sent :: "OrderStatus set"
  backlogFlushed :: bool
  buffer :: "OrderEvent list"
  ws_open :: bool
  ws_sent :: "OrderEvent list"

definition safeSend :: "OrderEvent \<Rightarrow> Conn \<Rightarrow> Conn" where
  "safeSend payload c = (if \<not> ws_open c then c else c\<lparr>ws_sent := ws_sent c @ [payload]\<rparr>)"

text \<open>The callback given to \<open>eventBus.subscribe\<close>.\<close>

definition on_bus_event :: "OrderEvent \<Rightarrow> Conn \<Rightarrow> Conn" where
  "on_bus_event event c =
     (if status event \<in> sent c then c
      else if \<not> backlogFlushed c then c\<lparr>buffer := buffer c @ [event]\<rparr>
      else safeSend event (c\<lparr>sent := insert (status event) (sent c)\<rparr>))"

text \<open>The body of both \<open>for (const ev of ...)\<close> loops.\<close>

definition send_unsent :: "Conn \<Rightarrow> OrderEvent \<Rightarrow> Conn" where
  "send_unsent c ev =
     (if status ev \<in> sent c then c
      else safeSend ev (c\<lparr>sent := insert (status ev) (sent c)\<rparr>))"

text \<open>From \<open>backlog.sort\<close> to the end of the second loop, which runs without suspension.\<close>

definition flush_backlog :: "OrderEvent list \<Rightarrow> Conn \<Rightarrow> Conn" where
  "flush_backlog backlog c =
     (let c1 = foldl send_unsent c (js_sort sortByLifecycle backlog);
          c2 = c1\<lparr>backlogFlushed := True\<rparr>;
          c3 = c2\<lparr>buffer := js_sort sortByLifecycle (buffer c2)\<rparr>
      in foldl send_unsent c3 (buffer c3))"

text \<open>
  One order, its two writers and one connection, run together. The order's events are the
  list \<open>script\<close>. The submission path emits the first of them (\<open>pending\<close>); it has
  dispatched the job before, so the worker emits the rest of the script at any time from
  the start, also before \<open>pending\<close> is appended. Each writer emits its events in order,
  each by an append to the store followed by a publish on the bus (\<open>emitPending\<close>,
  \<open>emitEvent\<close>); other tasks may run between the two. The handler serves a connection
  for whatever identifier the request carries, at any time, also before \<open>pending\<close> is
  emitted. It suspends at its three \<open>await\<close>s, so it advances in the steps
  \<open>GwSubscribe\<close> (up to the call of \<open>eventBus.subscribe\<close>), \<open>GwListEvents\<close> (the
  call of \<open>activeStore.listEvents\<close>) and \<open>GwFlush\<close> (the rest, which attaches the
  \<open>close\<close> listener). The socket may close at any moment; the \<open>close\<close> listener runs
  later and only if it has been attached. The registration of the connection in the
  socket-mapping store is left out: nothing else reads it.
\<close>

datatype GwPc = Connecting | Rejected | Subscribed | BacklogRead | Streaming | Closed

record GatewaySystem =
  g_store :: InMemoryActiveOrderStore
  g_bus :: InMemoryEventBus
  g_conn :: Conn
  g_pc :: GwPc
  g_backlog :: "OrderEvent list"
  g_api :: "OrderEvent list"
  g_api_in_flight :: "OrderEvent option"
  g_script :: "OrderEvent list"
  g_in_flight :: "OrderEvent option"

datatype GwStep =
    ApiAppend
  | ApiPublish
  | WriterAppend
  | WriterPublish
  | GwSubscribe
  | GwListEvents
  | GwFlush
  | SocketCloses
  | GwOnClose

definition subscribed_handlers :: "InMemoryEventBus \<Rightarrow> string \<Rightarrow> nat list" where
  "subscribed_handlers b oid = (case handlers b oid of None \<Rightarrow> [] | Some hs \<Rightarrow> hs)"

text \<open>What a publish does to the connection: its callback runs if it is subscribed.\<close>

definition publish_to_conn :: "nat \<Rightarrow> OrderEvent \<Rightarrow> InMemoryEventBus \<Rightarrow> Conn \<Rightarrow> Conn" where
  "publish_to_conn h ev b c =
     (if h \<in> set (subscribed_handlers b (event_orderId ev)) then on_bus_event ev c else c)"

fun gw_step :: "string \<Rightarrow> nat \<Rightarrow> GatewaySystem \<Rightarrow> GwStep \<Rightarrow> GatewaySystem" where
  "gw_step oid h s ApiAppend =
     (case (g_api_in_flight s, g_api s) of
        (None, ev # rest) \<Rightarrow>
          s\<lparr>g_store := appendEvent (event_orderId ev) ev (g_store s),
            g_api_in_flight := Some ev, g_api := rest\<rparr>
      | _ \<Rightarrow> s)"
| "gw_step oid h s ApiPublish =
     (case g_api_in_flight s of
        None \<Rightarrow> s
      | Some ev \<Rightarrow>
          s\<lparr>g_bus := publish (event_orderId ev) ev (g_bus s),
            g_conn := publish_to_conn h ev (g_bus s) (g_conn s),
            g_api_in_flight := None\<rparr>)"
| "gw_step oid h s WriterAppend =
     (case (g_in_flight s, g_script s) of
        (None, ev # rest) \<Rightarrow>
          s\<lparr>g_store := appendEvent (event_orderId ev) ev (g_store s),
            g_in_flight := Some ev, g_script := rest\<rparr>
      | _ \<Rightarrow> s)"
| "gw_step oid h s WriterPublish =
     (case g_in_flight s of
        None \<Rightarrow> s
      | Some ev \<Rightarrow>
          s\<lparr>g_bus := publish (event_orderId ev) ev (g_bus s),
            g_conn := publish_to_conn h ev (g_bus s) (g_conn s),
            g_in_flight := None\<rparr>)"
| "gw_step oid h s GwSubscribe =
     (if g_pc s \<noteq> Connecting then s
      else if oid = [] then s\<lparr>g_conn := (g_conn s)\<lparr>ws_open := False\<rparr>, g_pc := Rejected\<rparr>
      else s\<lparr>g_bus := subscribe oid h (g_bus s), g_pc := Subscribed\<rparr>)"
| "gw_step oid h s GwListEvents =
     (if g_pc s \<noteq> Subscribed then s
      else s\<lparr>g_backlog := listEvents (g_store s) oid, g_pc := BacklogRead\<rparr>)"
| "gw_step oid h s GwFlush =
     (if g_pc s \<noteq> BacklogRead then s
      else s\<lparr>g_conn := flush_backlog (g_backlog s) (g_conn s), g_pc := Streaming\<rparr>)"
| "gw_step oid h s SocketCloses = s\<lparr>g_conn := (g_conn s)\<lparr>ws_open := False\<rparr>\<rparr>"
| "gw_step oid h s GwOnClose =
     (if g_pc s = Streaming \<and> \<not> ws_open (g_conn s)
      then s\<lparr>g_bus := unsubscribe oid h (g_bus s), g_pc := Closed\<rparr>
      else s)"

definition gw_init :: "OrderEvent list \<Rightarrow> GatewaySystem" where
  "gw_init script =
     \<lparr>g_store = \<lparr>orders = Map.empty, events = Map.empty\<rparr>,
      g_bus = mem_new,
      g_conn = \<lparr>sent = {}, backlogFlushed = False, buffer = [], ws_open = True, ws_sent = []\<rparr>,
      g_pc = Connecting, g_backlog = [],
      g_api = take 1 script, g_api_in_flight = None,
      g_script = drop 1 script, g_in_flight = None\<rparr>"

definition gw_run :: "string \<Rightarrow> nat \<Rightarrow> OrderEvent list \<Rightarrow> GwStep list \<Rightarrow> GatewaySystem" where
  "gw_run oid h script steps = foldl (gw_step oid h) (gw_init script) steps"

text \<open>
  The schedules in which the connection finds \<open>pending\<close> in the store when it reads the
  backlog: at every step that performs the read, the log of the order has a \<open>pending\<close>
  event.
\<close>

fun backlog_has_pending :: "string \<Rightarrow> nat \<Rightarrow> GatewaySystem \<Rightarrow> GwStep list \<Rightarrow> bool" where
  "backlog_has_pending oid h s [] = True"
| "backlog_has_pending oid h s (step # steps) =
     ((step = GwListEvents \<and> g_pc s = Subscribed
         \<longrightarrow> hasStatus (listEvents (g_store s) oid) Pending)
      \<and> backlog_has_pending oid h (gw_step oid h s step) steps)"

text \<open>
  The submission path replies once it has published \<open>pending\<close>. The schedules in which
  the connection is opened with the identifier from the reply: whenever the handler goes on
  to subscribe, \<open>pending\<close> has been published.
\<close>

definition pending_published :: "GatewaySystem \<Rightarrow> bool" where
  "pending_published s = (g_api s = [] \<and> g_api_in_flight s = None)"

fun subscribes_after_reply :: "string \<Rightarrow> nat \<Rightarrow> GatewaySystem \<Rightarrow> GwStep list \<Rightarrow> bool" where
  "subscribes_after_reply oid h s [] = True"
| "subscribes_after_reply oid h s (step # steps) =
     ((step = GwSubscribe \<and> g_pc s = Connecting \<longrightarrow> pending_published s)
      \<and> subscribes_after_reply oid h (gw_step oid h s step) steps)"

definition delivered_statuses :: "GatewaySystem \<Rightarrow> OrderStatus list" where
  "delivered_statuses s = map status (ws_sent (g_conn s))"

definition canonical_orders :: "OrderStatus list list" where
  "canonical_orders =
     [[Pending, Routing, Building, Submitted, Confirmed],
      [Pending, Routing, Failed],
      [Pending, Routing, Building, Submitted, Failed]]"

definition lifecycle_prefix :: "OrderStatus list \<Rightarrow> bool" where
  "lifecycle_prefix sts = list_ex (prefix sts) canonical_orders"


section \<open>Observations used to state the properties\<close>

text \<open>
  The events one attempt of \<open>processOrderOnce\<close> publishes, read off the calls it adds to
  the trace.
\<close>

definition emitted_by :: "'r OrderWorkerDeps \<Rightarrow> Order \<Rightarrow> 'r World \<Rightarrow> OrderEvent list" where
  "emitted_by deps order w =
     published_events (drop (length (trace w)) (trace (snd (processOrderOnce deps order w))))"

definition terminal_log :: "OrderEvent list \<Rightarrow> bool" where
  "terminal_log evs = (lastStatus evs = Some Confirmed \<or> lastStatus evs = Some Failed)"

definition unless_list :: "bool \<Rightarrow> 'a \<Rightarrow> 'a list" where
  "unless_list r x = (if r then [] else [x])"

fun emit_calls :: "OrderEvent list \<Rightarrow> Action list" where
  "emit_calls [] = []"
| "emit_calls (ev # evs) =
     CallAppendEvent (event_orderId ev) ev # CallPublish (event_orderId ev) ev # emit_calls evs"

definition append_all :: "OrderEvent list \<Rightarrow> InMemoryActiveOrderStore \<Rightarrow> InMemoryActiveOrderStore" where
  "append_all evs st = foldl (\<lambda>st ev. appendEvent (event_orderId ev) ev st) st evs"

section \<open>Concrete inputs\<close>

definition world0 :: "unit World" where
  "world0 = \<lparr>store = \<lparr>orders = Map.empty, events = Map.empty\<rparr>, bus = mem_new, db = Map.empty,
     queue_jobs = [], sleeps = [], trace = [], clock = (\<lambda>n. 1000 + int n), clock_calls = 0,
     uuidv4 = (\<lambda>n. ''order-'' @ replicate n CHR ''x''), uuidv4_calls = 0, router_state = ()\<rparr>"

definition order1 :: Order where
  "order1 = \<lparr>orderId = ''o1'', orderType = Market, tokenIn = ''SOL'', tokenOut = ''USDC'',
              amount = 10, slippageBps = 50, createdAtMs = 1\<rparr>"

text \<open>The router of the failure tests: both methods throw.\<close>

definition failing_deps :: "unit OrderWorkerDeps" where
  "failing_deps =
     \<lparr>router_route = (\<lambda>order r. (Inl (ErrorObj ''routing failed''), r)),
      router_executeSwap = (\<lambda>d order p r. (Inl (ErrorObj ''swap failed''), r))\<rparr>"

text \<open>A router that always answers with the same quotes and the same execution.\<close>

definition fixed_deps :: "unit OrderWorkerDeps" where
  "fixed_deps =
     \<lparr>router_route = (\<lambda>order r.
        (Inr \<lparr>raydium = \<lparr>dex = Raydium, price = 2, feeRate = 0.003, effectivePrice = 1.994\<rparr>,
              meteora = \<lparr>dex = Meteora, price = 1, feeRate = 0.002, effectivePrice = 0.998\<rparr>,
              chosen = \<lparr>dex = Raydium, price = 2, feeRate = 0.003, effectivePrice = 1.994\<rparr>\<rparr>, r)),
      router_executeSwap = (\<lambda>d order p r.
        (Inr \<lparr>swap_dex = d, executedPrice = p, txHash = ''mocktx_1''\<rparr>, r))\<rparr>"

definition world_pending :: "unit World" where
  "world_pending = world0
     \<lparr>store := \<lparr>orders = [''o1'' \<mapsto> order1], events = [''o1'' \<mapsto> [EvPending ''o1'' 1]]\<rparr>,
      db := [''o1'' \<mapsto> order_row order1]\<rparr>"

definition world_retry :: "unit World" where
  "world_retry = world0
     \<lparr>store := \<lparr>orders = [''o1'' \<mapsto> order1],
                 events = [''o1'' \<mapsto> [EvPending ''o1'' 1, EvRouting ''o1'' 2]]\<rparr>,
      db := [''o1'' \<mapsto> order_row order1]\<rparr>"

definition world_done :: "unit World" where
  "world_done = world0
     \<lparr>store := \<lparr>orders = [''o1'' \<mapsto> order1],
                 events = [''o1'' \<mapsto> [EvPending ''o1'' 1, EvRouting ''o1'' 2, EvBuilding ''o1'' 3,
                                      EvSubmitted ''o1'' 4,
                                      EvConfirmed ''o1'' 5 ''mocktx_1'' Raydium 2]]\<rparr>\<rparr>"

text \<open>
  A router whose state counts the calls of \<open>route\<close>: the first call throws, the later
  ones answer; and a world in which order \<open>o1\<close> is pending and that router is fresh.
\<close>

definition flaky_deps :: "nat OrderWorkerDeps" where
  "flaky_deps =
     \<lparr>router_route = (\<lambda>order r.
        (if r = 0 then Inl (ErrorObj ''routing failed'')
         else Inr \<lparr>raydium = \<lparr>dex = Raydium, price = 2, feeRate = 0.003, effectivePrice = 1.994\<rparr>,
                   meteora = \<lparr>dex = Meteora, price = 1, feeRate = 0.002, effectivePrice = 0.998\<rparr>,
                   chosen = \<lparr>dex = Raydium, price = 2, feeRate = 0.003, effectivePrice = 1.994\<rparr>\<rparr>,
         r + 1)),
      router_executeSwap = (\<lambda>d order p r.
        (Inr \<lparr>swap_dex = d, executedPrice = p, txHash = ''mocktx_1''\<rparr>, r))\<rparr>"

definition world_flaky :: "nat World" where
  "world_flaky =
     \<lparr>store = \<lparr>orders = [''o1'' \<mapsto> order1], events = [''o1'' \<mapsto> [EvPending ''o1'' 1]]\<rparr>,
      bus = mem_new, db = [''o1'' \<mapsto> order_row order1],
      queue_jobs = [], sleeps = [], trace = [], clock = (\<lambda>n. 1000 + int n), clock_calls = 0,
      uuidv4 = (\<lambda>n. ''order-'' @ replicate n CHR ''x''), uuidv4_calls = 0, router_state = 0\<rparr>"

definition body0 :: JsValue where
  "body0 = JsObject [(''tokenIn'', JsString ''SOL''), (''tokenOut'', JsString ''USDC''),
                     (''amount'', JsNumber 10), (''slippageBps'', JsNumber 50)]"

text \<open>A body that passes validation with a slippage of 50.5 basis points.\<close>

definition body_fraction :: JsValue where
  "body_fraction = JsObject [(''tokenIn'', JsString ''SOL''), (''tokenOut'', JsString ''USDC''),
                             (''amount'', JsNumber 10), (''slippageBps'', JsNumber (101 / 2))]"

definition router0 :: MockDexRouter where
  "router0 = \<lparr>rand = (\<lambda>n. if n = 0 then 0 else 1), uuidv4_hex = (\<lambda>n. ''ab'')\<rparr>"

text \<open>Random draws for which the two effective prices are equal.\<close>

definition router_tie :: MockDexRouter where
  "router_tie = \<lparr>rand = (\<lambda>n. if n = 0 then 1595 / 3988 else 1 / 2), uuidv4_hex = (\<lambda>n. ''ab'')\<rparr>"

definition router_state0 :: RouterState where
  "router_state0 = \<lparr>rand_calls = 0, uuid_calls = 0, router_sleeps = [], routing_logs = []\<rparr>"

section \<open>Predicates used in the proofs\<close>

text \<open>The sort key of \<open>sortByLifecycle\<close>.\<close>

definition rank_of :: "OrderEvent \<Rightarrow> int" where
  "rank_of e = statusRank (status e)"

text \<open>
  What one connection holds, by its place in the handler, when the order's events are
  \<open>pe # W\<close>, the worker has appended the first \<open>a\<close> events of \<open>W\<close> and published
  the first \<open>p\<close>, and \<open>pub\<close> tells whether \<open>pe\<close> is published. The buffer holds the
  worker's events published since the subscription, and \<open>pe\<close> among them if it was
  published since; the store may hold the events in another order than the lifecycle, so
  buffer and backlog are known up to the lifecycle sort. The backlog was read with
  \<open>pe\<close> in the store.
\<close>

definition buffer_ok ::
  "OrderEvent \<Rightarrow> OrderEvent list \<Rightarrow> nat \<Rightarrow> nat \<Rightarrow> bool \<Rightarrow> OrderEvent list \<Rightarrow> bool" where
  "buffer_ok pe W j p pub buf =
     (buf = drop j (take p W) \<or> (pub \<and> sort_key rank_of buf = pe # drop j (take p W)))"

definition conn_inv ::
  "OrderEvent \<Rightarrow> OrderEvent list \<Rightarrow> nat \<Rightarrow> nat \<Rightarrow> bool \<Rightarrow> GwPc \<Rightarrow> Conn \<Rightarrow> OrderEvent list \<Rightarrow> bool"
where
  "conn_inv pe W a p pub pc c backlog =
     (case pc of
        Connecting \<Rightarrow> sent c = {} \<and> \<not> backlogFlushed c \<and> buffer c = [] \<and> ws_sent c = []
      | Rejected \<Rightarrow> ws_sent c = []
      | Subscribed \<Rightarrow>
          sent c = {} \<and> \<not> backlogFlushed c \<and> ws_sent c = []
          \<and> (\<exists>j\<le>p. buffer_ok pe W j p pub (buffer c))
      | BacklogRead \<Rightarrow>
          sent c = {} \<and> \<not> backlogFlushed c \<and> ws_sent c = []
          \<and> (\<exists>j k. j \<le> p \<and> j \<le> k \<and> k \<le> a \<and> buffer_ok pe W j p pub (buffer c)
                   \<and> sort_key rank_of backlog = pe # take k W)
      | Streaming \<Rightarrow>
          backlogFlushed c
          \<and> (\<exists>n. p \<le> n \<and> n \<le> a \<and> sent c = status ` set (pe # take n W)
                 \<and> prefix (ws_sent c) (pe # take n W)
                 \<and> (ws_open c \<longrightarrow> ws_sent c = pe # take n W))
      | Closed \<Rightarrow> prefix (ws_sent c) (pe # W))"

text \<open>What the \<open>sent\<close> set guarantees by itself, whatever the events are.\<close>

definition conn_ok :: "Conn \<Rightarrow> bool" where
  "conn_ok c = (distinct (map status (ws_sent c)) \<and> status ` set (ws_sent c) \<subseteq> sent c)"

definition listening :: "GwPc \<Rightarrow> bool" where
  "listening pc = (pc = Subscribed \<or> pc = BacklogRead \<or> pc = Streaming)"

text \<open>
  The invariant of the gateway system for the events \<open>pe # W\<close>: the submission path is
  about to append \<open>pe\<close>, or has appended it; the worker has appended \<open>a\<close> events of
  \<open>W\<close> and published \<open>p\<close> of them; the handler is subscribed exactly while the
  connection is between its subscription and its \<open>close\<close> listener.
\<close>

definition api_inv :: "OrderEvent \<Rightarrow> OrderEvent list \<Rightarrow> nat \<Rightarrow> string \<Rightarrow> GatewaySystem \<Rightarrow> bool" where
  "api_inv pe W a oid s =
     ((g_api s = [pe] \<and> g_api_in_flight s = None \<and> listEvents (g_store s) oid = take a W)
      \<or> (g_api s = [] \<and> (g_api_in_flight s = Some pe \<or> g_api_in_flight s = None)
         \<and> sort_key rank_of (listEvents (g_store s) oid) = pe # take a W))"

definition gw_inv :: "OrderEvent \<Rightarrow> OrderEvent list \<Rightarrow> string \<Rightarrow> nat \<Rightarrow> GatewaySystem \<Rightarrow> bool" where
  "gw_inv pe W oid h s =
     (\<exists>a p. a \<le> length W
        \<and> g_script s = drop a W
        \<and> ((g_in_flight s = None \<and> p = a) \<or> (0 < a \<and> g_in_flight s = Some (W ! (a - 1)) \<and> p = a - 1))
        \<and> api_inv pe W a oid s
        \<and> (h \<in> set (subscribed_handlers (g_bus s) oid) \<longleftrightarrow> listening (g_pc s))
        \<and> conn_inv pe W a p (pending_published s) (g_pc s) (g_conn s) (g_backlog s))"

text \<open>The statuses in the log of one order, and the logs a worker can resume from.\<close>

definition log_statuses :: "'r World \<Rightarrow> string \<Rightarrow> OrderStatus list" where
  "log_statuses w oid = map status (listEvents (store w) oid)"

definition log_ids_ok :: "'r World \<Rightarrow> string \<Rightarrow> bool" where
  "log_ids_ok w oid = list_all (\<lambda>e. event_orderId e = oid) (listEvents (store w) oid)"

definition resumable :: "OrderStatus list \<Rightarrow> bool" where
  "resumable sts = (sts = [Pending] \<or> sts = [Pending, Routing]
                    \<or> sts = [Pending, Routing, Building, Submitted]
                    \<or> sts = [Pending, Routing, Building, Submitted, Confirmed])"

definition failed_attempt_log :: "OrderStatus list \<Rightarrow> bool" where
  "failed_attempt_log sts = (sts = [Pending, Routing] \<or> sts = [Pending, Routing, Building, Submitted])"



definition ops_use_after_close :: "BusOp list" where
  "ops_use_after_close = [Close, Subscribe ''o1'' 0, Publish ''o1'' (EvPending ''o1'' 1)]"


text \<open>
  A schedule in which the worker appends \<open>routing\<close> before the submission path appends
  \<open>pending\<close>, and the connection subscribes at the start, reads the backlog once
  \<open>pending\<close> is stored and flushes after \<open>failed\<close> is published.
\<close>

definition schedule0 :: "GwStep list" where
  "schedule0 = [GwSubscribe, WriterAppend, WriterPublish, ApiAppend, GwListEvents, ApiPublish,
                WriterAppend, WriterPublish, GwFlush]"

text \<open>
  A schedule in which the connection is opened after the reply, the worker having appended
  \<open>routing\<close> before \<open>pending\<close> was stored.
\<close>

definition schedule_late :: "GwStep list" where
  "schedule_late = [WriterAppend, ApiAppend, WriterPublish, ApiPublish, GwSubscribe, WriterAppend,
                    GwListEvents, WriterPublish, GwFlush]"

text \<open>
  A schedule in which the connection has read the backlog and flushed before the
  submission path emits \<open>pending\<close>, the worker having emitted \<open>routing\<close> already.
\<close>

definition schedule_early :: "GwStep list" where
  "schedule_early = [WriterAppend, WriterPublish, GwSubscribe, GwListEvents, GwFlush,
                     ApiAppend, ApiPublish]"

section \<open>Basic facts about the world operations\<close>

lemma log_call_fields [simp]:
  "store (log_call a w) = store w" "bus (log_call a w) = bus w" "db (log_call a w) = db w"
  "queue_jobs (log_call a w) = queue_jobs w" "sleeps (log_call a w) = sleeps w"
  "trace (log_call a w) = trace w @ [a]" "clock (log_call a w) = clock w"
  "clock_calls (log_call a w) = clock_calls w" "uuidv4 (log_call a w) = uuidv4 w"
  "uuidv4_calls (log_call a w) = uuidv4_calls w" "router_state (log_call a w) = router_state w"
  by (simp_all add: log_call_def)

lemma w_sleep_fields [simp]:
  "store (w_sleep ms w) = store w" "bus (w_sleep ms w) = bus w" "db (w_sleep ms w) = db w"
  "sleeps (w_sleep ms w) = sleeps w @ [ms]"
  "trace (w_sleep ms w) = trace w @ [CallSleep ms]" "clock (w_sleep ms w) = clock w"
  "clock_calls (w_sleep ms w) = clock_calls w" "router_state (w_sleep ms w) = router_state w"
  by (simp_all add: w_sleep_def)

lemma listEvents_appendEvent [simp]:
  "listEvents (appendEvent oid ev st) oid' =
     (if oid' = oid then listEvents st oid @ [ev] else listEvents st oid')"
  by (simp add: listEvents_def appendEvent_def)

lemma listEvents_append_all [simp]:
  "listEvents (append_all evs st) oid = listEvents st oid @ filter (\<lambda>ev. event_orderId ev = oid) evs"
  unfolding append_all_def by (induction evs arbitrary: st) auto

lemma emitEvent_record [simp]:
  "emitEvent ev w = w\<lparr>store := append_all [ev] (store w), bus := publish (event_orderId ev) ev (bus w),
                      trace := trace w @ emit_calls [ev]\<rparr>"
  by (simp add: emitEvent_def w_publish_def w_appendEvent_def log_call_def append_all_def)

lemma emit_unless_fields [simp]:
  "store (emit_unless r mk w) = append_all (unless_list r (mk (clock w (clock_calls w)))) (store w)"
  "db (emit_unless r mk w) = db w"
  "sleeps (emit_unless r mk w) = sleeps w"
  "trace (emit_unless r mk w) = trace w @ emit_calls (unless_list r (mk (clock w (clock_calls w))))"
  "clock (emit_unless r mk w) = clock w"
  "router_state (emit_unless r mk w) = router_state w"
  by (simp_all add: emit_unless_def nowMs_def unless_list_def append_all_def)

lemma filter_unless_list [simp]:
  "filter P (unless_list r x) = (if P x then unless_list r x else [])"
  by (simp add: unless_list_def)

lemma map_unless_list [simp]: "map f (unless_list r x) = unless_list r (f x)"
  by (simp add: unless_list_def)

lemma in_set_unless_list [simp]: "y \<in> set (unless_list r x) \<longleftrightarrow> \<not> r \<and> y = x"
  by (simp add: unless_list_def)

lemma hasStatus_iff: "hasStatus evs st \<longleftrightarrow> st \<in> set (map status evs)"
  by (auto simp add: hasStatus_def list_ex_iff)

lemma published_events_append [simp]:
  "published_events (xs @ ys) = published_events xs @ published_events ys"
  by (induction xs rule: published_events.induct) auto

lemma appended_events_append [simp]:
  "appended_events (xs @ ys) = appended_events xs @ appended_events ys"
  by (induction xs rule: appended_events.induct) auto

lemma published_emit_calls [simp]: "published_events (emit_calls evs) = evs"
  by (induction evs) auto

lemma appended_emit_calls [simp]: "appended_events (emit_calls evs) = evs"
  by (induction evs) auto

section \<open>One attempt of the worker\<close>

lemma attempt_result:
  "fst (processOrderOnce deps order w) =
     (if terminal_log (listEvents (store w) (orderId order)) then None
      else case router_route deps order (router_state w) of
             (Inl e, r1) \<Rightarrow> Some e
           | (Inr d, r1) \<Rightarrow>
               (case router_executeSwap deps (dex (chosen d)) order (price (chosen d)) r1 of
                  (Inl e, r2) \<Rightarrow> Some e
                | (Inr ex, r2) \<Rightarrow> None))"
  by (simp add: processOrderOnce_def terminal_log_def Let_def split: prod.splits sum.splits)

lemma attempt_log:
  "listEvents (store (snd (processOrderOnce deps order w))) (orderId order)
     = listEvents (store w) (orderId order) @ emitted_by deps order w"
  unfolding emitted_by_def
  by (simp add: processOrderOnce_def Let_def hasStatus_iff nowMs_def split: prod.splits sum.splits)

lemma attempt_appended:
  "appended_events (drop (length (trace w)) (trace (snd (processOrderOnce deps order w))))
     = emitted_by deps order w"
  unfolding emitted_by_def
  by (simp add: processOrderOnce_def Let_def hasStatus_iff nowMs_def split: prod.splits sum.splits)

lemma attempt_trace_extends:
  "take (length (trace w)) (trace (snd (processOrderOnce deps order w))) = trace w"
  by (simp add: processOrderOnce_def Let_def hasStatus_iff nowMs_def split: prod.splits sum.splits)

lemma attempt_emitted_statuses:
  "map status (emitted_by deps order w) =
     (let S = set (map status (listEvents (store w) (orderId order)));
          uR = unless_list (Routing \<in> S) Routing;
          uB = unless_list (Building \<in> S) Building;
          uS = unless_list (Submitted \<in> S) Submitted;
          uC = unless_list (Confirmed \<in> S) Confirmed
      in if terminal_log (listEvents (store w) (orderId order)) then []
         else case router_route deps order (router_state w) of
             (Inl e, r1) \<Rightarrow> uR
           | (Inr d, r1) \<Rightarrow>
               (case router_executeSwap deps (dex (chosen d)) order (price (chosen d)) r1 of
                  (Inl e, r2) \<Rightarrow> uR @ uB @ uS
                | (Inr ex, r2) \<Rightarrow> uR @ uB @ uS @ uC))"
  unfolding emitted_by_def
  by (simp add: processOrderOnce_def terminal_log_def Let_def hasStatus_iff nowMs_def unless_list_def
           split: prod.splits sum.splits)

lemma attempt_statuses_fresh:
  "distinct (map status (emitted_by deps order w))
   \<and> set (map status (emitted_by deps order w))
       \<inter> set (map status (listEvents (store w) (orderId order))) = {}"
  by (simp add: attempt_emitted_statuses Let_def unless_list_def split: prod.splits sum.splits)


lemma failing_attempt:
  "processOrderOnce failing_deps order1 (w :: unit World) =
     (if terminal_log (listEvents (store w) ''o1'') then (None, w)
      else (Some (ErrorObj ''routing failed''),
            emit_unless (hasStatus (listEvents (store w) ''o1'') Routing) (EvRouting ''o1'') w))"
  by (simp add: processOrderOnce_def failing_deps_def order1_def Let_def terminal_log_def)

section \<open>Venue router: quotes and routing\<close>

text \<open>
  Claim C8. Every quote of either venue has
  \<open>effectivePrice = price * (1 - feeRate)\<close>, with fee rate 0.003 for Raydium and 0.002
  for Meteora, whatever the token pair, the amount and the random draw.
\<close>

theorem getQuote_effectivePrice:
  "effectivePrice (fst (getQuote rt d tin tout amt s))
     = price (fst (getQuote rt d tin tout amt s)) * (1 - feeRate (fst (getQuote rt d tin tout amt s)))
   \<and> feeRate (fst (getQuote rt d tin tout amt s)) = (if d = Raydium then 0.003 else 0.002)
   \<and> dex (fst (getQuote rt d tin tout amt s)) = d"
  by (simp add: getQuote_def Let_def split: prod.splits)

theorem getQuote_effectivePrice_witness:
  "effectivePrice (fst (getQuote router0 Meteora ''SOL'' ''USDC'' 10 router_state0))
     = price (fst (getQuote router0 Meteora ''SOL'' ''USDC'' 10 router_state0)) * (1 - 0.002)"
  using getQuote_effectivePrice[of router0 Meteora "''SOL''" "''USDC''" 10 router_state0]
  by simp

lemma getQuote_dex: "dex (fst (getQuote rt d tin tout amt s)) = d"
  by (simp add: getQuote_def Let_def split: prod.splits)

text \<open>
  Claim C6. The decision \<open>route\<close> returns holds the Raydium quote and the Meteora quote,
  and its chosen quote is the one with the higher effective price: the Raydium quote when
  its effective price is greater than or equal to Meteora's (so Raydium wins a tie), the
  Meteora quote otherwise.
\<close>

theorem route_chooses_higher:
  "chosen (fst (route rt order s)) =
      (if effectivePrice (raydium (fst (route rt order s)))
            \<ge> effectivePrice (meteora (fst (route rt order s)))
       then raydium (fst (route rt order s)) else meteora (fst (route rt order s)))
   \<and> raydium (fst (route rt order s))
       = fst (getRaydiumQuote rt (tokenIn order) (tokenOut order) (amount order) s)
   \<and> meteora (fst (route rt order s)) =
       fst (getMeteoraQuote rt (tokenIn order) (tokenOut order) (amount order)
              (snd (getRaydiumQuote rt (tokenIn order) (tokenOut order) (amount order) s)))
   \<and> effectivePrice (chosen (fst (route rt order s)))
       = max (effectivePrice (raydium (fst (route rt order s))))
             (effectivePrice (meteora (fst (route rt order s))))
   \<and> dex (raydium (fst (route rt order s))) = Raydium
   \<and> dex (meteora (fst (route rt order s))) = Meteora"
  by (simp add: route_def Let_def case_prod_beta getRaydiumQuote_def getMeteoraQuote_def getQuote_dex)

lemma route_tie_values:
  "effectivePrice (raydium (fst (route router_tie order1 router_state0)))
     = effectivePrice (meteora (fst (route router_tie order1 router_state0)))"
  by (simp add: route_def getRaydiumQuote_def getMeteoraQuote_def getQuote_def Let_def next_rand_def
        sleepFn_def router_tie_def order1_def router_state0_def)

theorem route_chooses_higher_witness:
  "effectivePrice (raydium (fst (route router_tie order1 router_state0)))
     = effectivePrice (meteora (fst (route router_tie order1 router_state0)))
   \<and> dex (chosen (fst (route router_tie order1 router_state0))) = Raydium
   \<and> dex (chosen (fst (route router0 order1 router_state0))) = Meteora"
proof -
  note t = route_chooses_higher[of router_tie order1 router_state0]
  have c: "chosen (fst (route router_tie order1 router_state0))
             = raydium (fst (route router_tie order1 router_state0))"
    using t[THEN conjunct1] route_tie_values by simp
  have d: "dex (raydium (fst (route router_tie order1 router_state0))) = Raydium"
    by (rule t[THEN conjunct2, THEN conjunct2, THEN conjunct2, THEN conjunct2, THEN conjunct1])
  have m: "dex (chosen (fst (route router0 order1 router_state0))) = Meteora"
    using route_chooses_higher[of router0 order1 router_state0]
    by (simp add: getRaydiumQuote_def getMeteoraQuote_def getQuote_def Let_def next_rand_def
          sleepFn_def stableBasePrice_def seed_codes_def clamp_def router0_def order1_def
          router_state0_def)
  show ?thesis using c d m route_tie_values by simp
qed

section \<open>Retry orchestration\<close>

lemma backoff_doubles:
  "2 \<le> n \<Longrightarrow> computeExponentialBackoffMs (n + 1) b = 2 * computeExponentialBackoffMs n b"
proof -
  assume "2 \<le> n"
  then have "nat (n + 1 - 2) = Suc (nat (n - 2))" by simp
  then show ?thesis
    using \<open>2 \<le> n\<close> by (simp add: computeExponentialBackoffMs_def Let_def max_def)
qed

lemma retry_loop_path:
  fixes ws after :: "int \<Rightarrow> 'r World"
  assumes km: "k \<le> m"
      and fails: "\<And>a. 1 \<le> a \<Longrightarrow> a < k \<Longrightarrow> run a (ws a) = (Some (err a), after a)"
      and nxt: "\<And>a. 1 \<le> a \<Longrightarrow> a < k \<Longrightarrow>
                 ws (a + 1) = w_sleep (computeExponentialBackoffMs (a + 1) b)
                    (log_call (CallWarnRetry a (a + 1) (computeExponentialBackoffMs (a + 1) b)
                                 (thrown_message (err a))) (after a))"
      and last: "run k (ws k) = (r, after k)" "r = None \<or> k = m"
  shows "1 \<le> a \<Longrightarrow> a \<le> k \<Longrightarrow> n = nat (k - a) \<Longrightarrow> retry_loop m b run a (ws a) = (r, after k)"
proof (induction n arbitrary: a)
  case 0
  then have ak: "a = k" by simp
  show ?case
  proof (cases r)
    case None
    then show ?thesis using last km ak by (subst retry_loop.simps) simp
  next
    case (Some e)
    then have "k = m" using last by simp
    then show ?thesis using last Some ak by (subst retry_loop.simps) (simp add: Let_def)
  qed
next
  case (Suc n)
  then have ak: "a < k" by simp
  have am: "a < m" using ak km by simp
  have unfold: "retry_loop m b run a (ws a) = retry_loop m b run (a + 1) (ws (a + 1))"
    using fails[OF Suc.prems(1) ak] nxt[OF Suc.prems(1) ak] am
    by (subst retry_loop.simps) (simp add: Let_def)
  show ?case unfolding unfold using Suc.IH[of "a + 1"] Suc.prems ak by simp
qed

lemma path_sleeps:
  fixes ws after :: "int \<Rightarrow> 'r World"
  assumes start: "ws 1 = w"
      and nxt: "\<And>a. 1 \<le> a \<Longrightarrow> a < k \<Longrightarrow>
                 ws (a + 1) = w_sleep (computeExponentialBackoffMs (a + 1) b)
                    (log_call (CallWarnRetry a (a + 1) (computeExponentialBackoffMs (a + 1) b)
                                 (thrown_message (err a))) (after a))"
      and own: "\<And>a. 1 \<le> a \<Longrightarrow> a \<le> k \<Longrightarrow> sleeps (after a) = sleeps (ws a) @ own a"
  shows "n = nat (a - 1) \<Longrightarrow> 1 \<le> a \<Longrightarrow> a \<le> k \<Longrightarrow>
         sleeps (ws a) = sleeps w
           @ concat (map (\<lambda>i. own i @ [computeExponentialBackoffMs (i + 1) b]) [1..a - 1])"
proof (induction n arbitrary: a)
  case 0
  then have "a = 1" by simp
  then show ?case using start by simp
next
  case (Suc n)
  then have a2: "2 \<le> a" by simp
  let ?p = "a - 1"
  have p: "1 \<le> ?p" "?p < k" "?p \<le> k" using a2 Suc.prems by simp_all
  have ih: "sleeps (ws ?p) = sleeps w
           @ concat (map (\<lambda>i. own i @ [computeExponentialBackoffMs (i + 1) b]) [1..?p - 1])"
    using Suc.IH[of ?p] Suc.prems p by simp
  have st: "sleeps (ws a) = sleeps (after ?p) @ [computeExponentialBackoffMs a b]"
    using nxt[OF p(1,2)] by simp
  have up: "[1..a - 1] = [1..?p - 1] @ [?p]" using a2 by (simp add: upto_rec2)
  show ?case unfolding st own[OF p(1,3)] ih up by simp
qed

text \<open>
  Claim C7. With base delay \<open>b\<close> the wait before attempt 2 is \<open>b\<close>, before attempt 3 is
  \<open>2b\<close>, before attempt 4 is \<open>4b\<close>, and it doubles from each attempt to the next.
  \<open>runWithRetries\<close> sleeps these durations and no others. Follow the loop through the
  worlds it passes: attempt \<open>a\<close> starts in \<open>ws a\<close> and leaves \<open>after a\<close>; the attempts
  \<open>1 .. k - 1\<close> fail there, and attempt \<open>k\<close> succeeds or is the last one allowed
  (\<open>k = maxAttempts\<close>). If after each failed attempt \<open>a < k\<close> the next one starts in the
  world where the retry has been logged and \<open>computeExponentialBackoffMs (a + 1) b\<close> has
  been slept once, then the loop ends with the result and in the world of attempt \<open>k\<close>:
  nothing is slept after it. With \<open>own a\<close> the durations attempt \<open>a\<close> itself sleeps, the
  sleeps of the whole run are those of the attempts with exactly one backoff wait between
  two consecutive attempts.
\<close>

theorem backoff_schedule:
  fixes ws after :: "int \<Rightarrow> 'r World"
  assumes k1: "1 \<le> k" and km: "k \<le> m"
      and start: "ws 1 = w"
      and fails: "\<And>a. 1 \<le> a \<Longrightarrow> a < k \<Longrightarrow> run a (ws a) = (Some (err a), after a)"
      and nxt: "\<And>a. 1 \<le> a \<Longrightarrow> a < k \<Longrightarrow>
                 ws (a + 1) = w_sleep (computeExponentialBackoffMs (a + 1) b)
                    (log_call (CallWarnRetry a (a + 1) (computeExponentialBackoffMs (a + 1) b)
                                 (thrown_message (err a))) (after a))"
      and last: "run k (ws k) = (r, after k)" "r = None \<or> k = m"
      and own: "\<And>a. 1 \<le> a \<Longrightarrow> a \<le> k \<Longrightarrow> sleeps (after a) = sleeps (ws a) @ own a"
  shows "computeExponentialBackoffMs 2 b = b
       \<and> computeExponentialBackoffMs 3 b = 2 * b
       \<and> computeExponentialBackoffMs 4 b = 4 * b
       \<and> (\<forall>n\<ge>2. computeExponentialBackoffMs (n + 1) b = 2 * computeExponentialBackoffMs n b)
       \<and> runWithRetries m b run w = (r, after k)
       \<and> sleeps (after k)
           = sleeps w
             @ concat (map (\<lambda>a. own a @ [computeExponentialBackoffMs (a + 1) b]) [1..k - 1])
             @ own k"
proof -
  have res: "runWithRetries m b run w = (r, after k)"
    unfolding runWithRetries_def start[symmetric]
    using retry_loop_path[where ws = ws and after = after and err = err and k = k and run = run
                and m = m and b = b and r = r and a = 1 and n = "nat (k - 1)", OF km fails nxt last] k1
    by simp
  have sl: "sleeps (ws k) = sleeps w
           @ concat (map (\<lambda>i. own i @ [computeExponentialBackoffMs (i + 1) b]) [1..k - 1])"
    using path_sleeps[where ws = ws and after = after and err = err and k = k and w = w and b = b
                and own = own and a = k and n = "nat (k - 1)", OF start nxt own] k1
    by simp
  show ?thesis using res sl own[OF k1] backoff_doubles[of _ b]
    by (simp add: computeExponentialBackoffMs_def)
qed


lemma attempt_sleeps:
  "sleeps (snd (processOrderOnce deps order w)) =
     sleeps w @
     (if terminal_log (listEvents (store w) (orderId order)) then []
      else case router_route deps order (router_state w) of
             (Inl e, r1) \<Rightarrow> []
           | (Inr d, r1) \<Rightarrow> [150])"
  by (simp add: processOrderOnce_def terminal_log_def Let_def nowMs_def split: prod.splits sum.splits)

lemma flaky_first_attempt:
  "router_state w = 0 \<Longrightarrow> \<not> terminal_log (listEvents (store w) ''o1'')
   \<Longrightarrow> processOrderOnce flaky_deps order1 w =
        (Some (ErrorObj ''routing failed''),
         (emit_unless (hasStatus (listEvents (store w) ''o1'') Routing) (EvRouting ''o1'') w)
           \<lparr>router_state := 1\<rparr>)"
  by (simp add: processOrderOnce_def flaky_deps_def order1_def Let_def terminal_log_def)

theorem backoff_schedule_witness:
  "fst (runWithRetries 3 1000 (\<lambda>attempt. processOrderOnce flaky_deps order1) world_flaky) = None
   \<and> sleeps (snd (runWithRetries 3 1000 (\<lambda>attempt. processOrderOnce flaky_deps order1) world_flaky))
       = [1000, 150]
   \<and> fst (runWithRetries 3 1000 (\<lambda>attempt. processOrderOnce failing_deps order1) world_pending)
       = Some (ErrorObj ''routing failed'')
   \<and> sleeps (snd (runWithRetries 3 1000 (\<lambda>attempt. processOrderOnce failing_deps order1) world_pending))
       = [1000, 2000]"
proof -
  define e where "e = ErrorObj ''routing failed''"
  have u1: "[1..(1::int)] = [1]" by (simp add: upto_rec1)
  have u2: "[1..(2::int)] = [1, 2]" by (simp add: upto_rec1)
  have flaky:
    "fst (runWithRetries 3 1000 (\<lambda>attempt. processOrderOnce flaky_deps order1) world_flaky) = None
     \<and> sleeps (snd (runWithRetries 3 1000 (\<lambda>attempt. processOrderOnce flaky_deps order1) world_flaky))
         = [1000, 150]"
  proof -
    define run where "run = (\<lambda>attempt::int. processOrderOnce flaky_deps order1)"
    define a1 where "a1 = snd (processOrderOnce flaky_deps order1 world_flaky)"
    define w2 where "w2 = w_sleep (computeExponentialBackoffMs 2 1000)
                           (log_call (CallWarnRetry 1 2 (computeExponentialBackoffMs 2 1000)
                                        (thrown_message e)) a1)"
    define a2 where "a2 = snd (processOrderOnce flaky_deps order1 w2)"
    define ws where "ws = (\<lambda>a::int. if a = 1 then world_flaky else w2)"
    define after where "after = (\<lambda>a::int. if a = 1 then a1 else a2)"
    have l0: "listEvents (store world_flaky) ''o1'' = [EvPending ''o1'' 1]"
      by (simp add: world_flaky_def listEvents_def)
    have nt0: "\<not> terminal_log (listEvents (store world_flaky) ''o1'')"
      by (simp add: l0 terminal_log_def lastStatus_def)
    have rs0: "router_state world_flaky = 0" by (simp add: world_flaky_def)
    have r1: "processOrderOnce flaky_deps order1 world_flaky = (Some e, a1)"
      unfolding a1_def e_def by (simp add: flaky_first_attempt[OF rs0 nt0])
    have a1v: "a1 = (emit_unless (hasStatus (listEvents (store world_flaky) ''o1'') Routing)
                       (EvRouting ''o1'') world_flaky)\<lparr>router_state := 1\<rparr>"
      unfolding a1_def by (simp add: flaky_first_attempt[OF rs0 nt0])
    have l2: "map status (listEvents (store w2) ''o1'') = [Pending, Routing]"
      unfolding w2_def a1v by (simp add: l0 hasStatus_iff unless_list_def)
    have rs2: "router_state w2 = 1"
      unfolding w2_def a1v by simp
    have nt2: "\<not> terminal_log (listEvents (store w2) ''o1'')"
      using l2 by (auto simp add: terminal_log_def lastStatus_def map_eq_Cons_conv)
    have f2: "fst (processOrderOnce flaky_deps order1 w2) = None"
      unfolding attempt_result using nt2 rs2 by (simp add: order1_def flaky_deps_def)
    have r2: "processOrderOnce flaky_deps order1 w2 = (None, a2)"
      unfolding a2_def using f2 by (simp add: prod_eq_iff)
    have s1: "sleeps a1 = sleeps world_flaky @ []"
      unfolding a1v by simp
    have s2: "sleeps a2 = sleeps w2 @ [150]"
      unfolding a2_def attempt_sleeps using nt2 rs2 by (simp add: order1_def flaky_deps_def)
    have fails: "\<And>a. 1 \<le> a \<Longrightarrow> a < 2 \<Longrightarrow> run a (ws a) = (Some ((\<lambda>a. e) a), after a)"
      using r1 by (simp add: run_def ws_def after_def)
    have nxt: "\<And>a. 1 \<le> a \<Longrightarrow> a < 2 \<Longrightarrow>
                   ws (a + 1) = w_sleep (computeExponentialBackoffMs (a + 1) 1000)
                      (log_call (CallWarnRetry a (a + 1) (computeExponentialBackoffMs (a + 1) 1000)
                                   (thrown_message ((\<lambda>a. e) a))) (after a))"
    proof -
      fix a :: int assume "1 \<le> a" "a < 2"
      then have "a = 1" by simp
      then show "ws (a + 1) = w_sleep (computeExponentialBackoffMs (a + 1) 1000)
                      (log_call (CallWarnRetry a (a + 1) (computeExponentialBackoffMs (a + 1) 1000)
                                   (thrown_message ((\<lambda>a. e) a))) (after a))"
        by (simp add: ws_def after_def w2_def)
    qed
    have last: "run 2 (ws 2) = (None, after 2)"
      using r2 by (simp add: run_def ws_def after_def)
    have own: "\<And>a. 1 \<le> a \<Longrightarrow> a \<le> 2 \<Longrightarrow>
                 sleeps (after a) = sleeps (ws a) @ (\<lambda>a. if a = 1 then [] else [150]) a"
      using s1 s2 by (simp add: ws_def after_def)
    note t = backoff_schedule[where k = 2 and m = 3 and ws = ws and w = world_flaky and run = run
                and err = "\<lambda>a. e" and after = after and b = 1000
                and r = None and own = "\<lambda>a. if a = 1 then [] else [150]",
                OF _ _ _ fails nxt last _ own]
    have t': "runWithRetries 3 1000 run world_flaky = (None, after 2)
         \<and> sleeps (after 2) = sleeps world_flaky
               @ concat (map (\<lambda>a. (if a = 1 then [] else [150]) @ [computeExponentialBackoffMs (a + 1) 1000]) [1..2 - 1])
               @ (if (2::int) = 1 then [] else [150])"
      using t by (simp add: ws_def)
    have sw: "sleeps world_flaky = []" by (simp add: world_flaky_def)
    show ?thesis
      using t' u1 unfolding run_def[symmetric]
      by (simp add: sw computeExponentialBackoffMs_def)
  qed
  have failing:
    "fst (runWithRetries 3 1000 (\<lambda>attempt. processOrderOnce failing_deps order1) world_pending) = Some e
     \<and> sleeps (snd (runWithRetries 3 1000 (\<lambda>attempt. processOrderOnce failing_deps order1) world_pending))
         = [1000, 2000]"
  proof -
    define run where "run = (\<lambda>attempt::int. processOrderOnce failing_deps order1)"
    define a1 where "a1 = snd (processOrderOnce failing_deps order1 world_pending)"
    define w2 where "w2 = w_sleep (computeExponentialBackoffMs 2 1000)
                           (log_call (CallWarnRetry 1 2 (computeExponentialBackoffMs 2 1000)
                                        (thrown_message e)) a1)"
    define a2 where "a2 = snd (processOrderOnce failing_deps order1 w2)"
    define w3 where "w3 = w_sleep (computeExponentialBackoffMs 3 1000)
                           (log_call (CallWarnRetry 2 3 (computeExponentialBackoffMs 3 1000)
                                        (thrown_message e)) a2)"
    define a3 where "a3 = snd (processOrderOnce failing_deps order1 w3)"
    define ws where "ws = (\<lambda>a::int. if a = 1 then world_pending else if a = 2 then w2 else w3)"
    define after where "after = (\<lambda>a::int. if a = 1 then a1 else if a = 2 then a2 else a3)"
    have l0: "listEvents (store world_pending) ''o1'' = [EvPending ''o1'' 1]"
      by (simp add: listEvents_def world_pending_def)
    have nt0: "\<not> terminal_log (listEvents (store world_pending) ''o1'')"
      by (simp add: l0 terminal_log_def lastStatus_def)
    have r1: "processOrderOnce failing_deps order1 world_pending = (Some e, a1)"
      using nt0 by (simp add: a1_def e_def failing_attempt)
    have l2: "map status (listEvents (store w2) ''o1'') = [Pending, Routing]"
      using nt0 by (simp add: w2_def a1_def failing_attempt l0 hasStatus_iff unless_list_def)
    have nt2: "\<not> terminal_log (listEvents (store w2) ''o1'')"
      using l2 by (auto simp add: terminal_log_def lastStatus_def map_eq_Cons_conv)
    have r2: "processOrderOnce failing_deps order1 w2 = (Some e, a2)"
      using nt2 by (simp add: a2_def e_def failing_attempt)
    have l3: "map status (listEvents (store w3) ''o1'') = [Pending, Routing]"
      using nt2 l2 by (simp add: w3_def a2_def failing_attempt hasStatus_iff unless_list_def)
    have nt3: "\<not> terminal_log (listEvents (store w3) ''o1'')"
      using l3 by (auto simp add: terminal_log_def lastStatus_def map_eq_Cons_conv)
    have r3: "processOrderOnce failing_deps order1 w3 = (Some e, a3)"
      using nt3 by (simp add: a3_def e_def failing_attempt)
    have s1: "sleeps a1 = sleeps world_pending @ []"
      using nt0 by (simp add: a1_def failing_attempt)
    have s2: "sleeps a2 = sleeps w2 @ []"
      using nt2 by (simp add: a2_def failing_attempt)
    have s3: "sleeps a3 = sleeps w3 @ []"
      using nt3 by (simp add: a3_def failing_attempt)
    have fails: "\<And>a. 1 \<le> a \<Longrightarrow> a < 3 \<Longrightarrow> run a (ws a) = (Some ((\<lambda>a. e) a), after a)"
    proof -
      fix a :: int assume "1 \<le> a" "a < 3"
      then have "a = 1 \<or> a = 2" by auto
      then show "run a (ws a) = (Some ((\<lambda>a. e) a), after a)"
        using r1 r2 by (auto simp add: run_def ws_def after_def)
    qed
    have nxt: "\<And>a. 1 \<le> a \<Longrightarrow> a < 3 \<Longrightarrow>
                   ws (a + 1) = w_sleep (computeExponentialBackoffMs (a + 1) 1000)
                      (log_call (CallWarnRetry a (a + 1) (computeExponentialBackoffMs (a + 1) 1000)
                                   (thrown_message ((\<lambda>a. e) a))) (after a))"
    proof -
      fix a :: int assume "1 \<le> a" "a < 3"
      then have "a = 1 \<or> a = 2" by auto
      then show "ws (a + 1) = w_sleep (computeExponentialBackoffMs (a + 1) 1000)
                      (log_call (CallWarnRetry a (a + 1) (computeExponentialBackoffMs (a + 1) 1000)
                                   (thrown_message ((\<lambda>a. e) a))) (after a))"
        by (auto simp add: ws_def after_def w2_def w3_def)
    qed
    have last: "run 3 (ws 3) = (Some e, after 3)"
      using r3 by (simp add: run_def ws_def after_def)
    have own: "\<And>a. 1 \<le> a \<Longrightarrow> a \<le> 3 \<Longrightarrow> sleeps (after a) = sleeps (ws a) @ (\<lambda>a. []) a"
      using s1 s2 s3 by (simp add: ws_def after_def)
    note t = backoff_schedule[where k = 3 and m = 3 and ws = ws and w = world_pending and run = run
                and err = "\<lambda>a. e" and after = after and b = 1000
                and r = "Some e" and own = "\<lambda>a. []",
                OF _ _ _ fails nxt last _ own]
    have t': "runWithRetries 3 1000 run world_pending = (Some e, after 3)
         \<and> sleeps (after 3) = sleeps world_pending
               @ concat (map (\<lambda>a. [] @ [computeExponentialBackoffMs (a + 1) 1000]) [1..3 - 1]) @ []"
      using t by (simp add: ws_def)
    have sw: "sleeps world_pending = []" by (simp add: world_pending_def world0_def)
    show ?thesis
      using t' u2 unfolding run_def[symmetric]
      by (simp add: sw computeExponentialBackoffMs_def)
  qed
  show ?thesis using flaky failing by (simp add: e_def)
qed

section \<open>The worker: resumption, terminal states, failure\<close>

text \<open>
  Claim C2. One invocation of \<open>processOrderOnce\<close> only extends the event log, by exactly
  the events it publishes; their statuses are pairwise different and none of them is
  already in the log it started from. Started on a log with the statuses
  \<open>pending, routing\<close>, an attempt that succeeds emits exactly
  \<open>building, submitted, confirmed\<close>, in that order.
\<close>

theorem processOrderOnce_emits_only_missing:
  "(let oid = orderId order;
        L = listEvents (store w) oid;
        w' = snd (processOrderOnce deps order w);
        new = emitted_by deps order w
    in listEvents (store w') oid = L @ new
       \<and> appended_events (drop (length (trace w)) (trace w')) = new
       \<and> take (length (trace w)) (trace w') = trace w
       \<and> distinct (map status new)
       \<and> set (map status new) \<inter> set (map status L) = {}
       \<and> (map status L = [Pending, Routing] \<longrightarrow> fst (processOrderOnce deps order w) = None
            \<longrightarrow> map status new = [Building, Submitted, Confirmed]))"
proof -
  have spec: "map status (listEvents (store w) (orderId order)) = [Pending, Routing]
        \<Longrightarrow> fst (processOrderOnce deps order w) = None
        \<Longrightarrow> map status (emitted_by deps order w) = [Building, Submitted, Confirmed]"
    by (auto simp add: attempt_emitted_statuses attempt_result Let_def unless_list_def terminal_log_def
          lastStatus_def nth_append split: prod.splits sum.splits if_splits list.splits)
  show ?thesis
    using spec attempt_statuses_fresh[of deps order w]
    by (simp add: Let_def attempt_log attempt_appended attempt_trace_extends)
qed

theorem processOrderOnce_emits_only_missing_witness:
  "map status (listEvents (store world_retry) ''o1'') = [Pending, Routing]
   \<and> fst (processOrderOnce fixed_deps order1 world_retry) = None
   \<and> map status (emitted_by fixed_deps order1 world_retry) = [Building, Submitted, Confirmed]"
proof -
  have oid: "orderId order1 = ''o1''" by (simp add: order1_def)
  have l: "map status (listEvents (store world_retry) ''o1'') = [Pending, Routing]"
    by (simp add: world_retry_def listEvents_def)
  have nt: "\<not> terminal_log (listEvents (store world_retry) ''o1'')"
    by (simp add: world_retry_def listEvents_def terminal_log_def lastStatus_def)
  have r: "fst (processOrderOnce fixed_deps order1 world_retry) = None"
    using nt by (simp add: attempt_result oid fixed_deps_def)
  note t = processOrderOnce_emits_only_missing[of order1 world_retry fixed_deps, unfolded Let_def oid]
  have "map status (emitted_by fixed_deps order1 world_retry) = [Building, Submitted, Confirmed]"
    using t l r by blast
  then show ?thesis using l r by simp
qed

text \<open>
  Claim C5. When the last recorded status of the order is \<open>confirmed\<close> or \<open>failed\<close>,
  \<open>processOrderOnce\<close> resolves at once and leaves the whole world as it was: store, bus,
  durable record, sleeper, router and the trace of calls.
\<close>

theorem processOrderOnce_terminal_noop:
  "lastStatus (listEvents (store w) (orderId order)) = Some Confirmed
     \<or> lastStatus (listEvents (store w) (orderId order)) = Some Failed
   \<Longrightarrow> processOrderOnce deps order w = (None, w)"
  by (auto simp add: processOrderOnce_def Let_def)

theorem processOrderOnce_terminal_noop_witness:
  "lastStatus (listEvents (store world_done) (orderId order1)) = Some Confirmed
   \<and> processOrderOnce fixed_deps order1 world_done = (None, world_done)"
proof -
  have h: "lastStatus (listEvents (store world_done) (orderId order1)) = Some Confirmed"
    by (simp add: world_done_def order1_def listEvents_def lastStatus_def)
  show ?thesis
    using h processOrderOnce_terminal_noop[of world_done order1 fixed_deps] by simp
qed

text \<open>
  Claim C10. When the store holds no order under the identifier, \<open>executeOrderJob\<close>
  throws the not-found error and the world is exactly as before: the retry loop is not
  entered, nothing is appended or published, and the durable record is not touched (no
  call at all is added to the trace).
\<close>

theorem executeOrderJob_not_found:
  "getActiveOrder (store w) oid = None
   \<Longrightarrow> executeOrderJob deps oid w = (Some (ErrorObj (''Active order not found: '' @ oid)), w)"
  by (simp add: executeOrderJob_def)

theorem executeOrderJob_not_found_witness:
  "getActiveOrder (store world0) ''missing'' = None
   \<and> executeOrderJob failing_deps ''missing'' world0
       = (Some (ErrorObj ''Active order not found: missing''), world0)"
proof -
  have h: "getActiveOrder (store world0) ''missing'' = None"
    by (simp add: world0_def getActiveOrder_def)
  show ?thesis
    using h executeOrderJob_not_found[OF h, of failing_deps] by simp
qed


text \<open>
  Claim C4. When all three attempts of \<open>processOrderOnce\<close> throw (with the backoff
  pauses of \<open>runWithRetries\<close> between them), \<open>executeOrderJob\<close> rejects with the error
  of the third attempt, after it has called \<open>failOrder\<close> with that error's message (so
  the order's row, when there is one, has status \<open>failed\<close> and that message as failure
  reason) and after it has emitted one \<open>failed\<close> event carrying the message, unless a
  \<open>failed\<close> event is already recorded, in which case it emits nothing.
\<close>

theorem executeOrderJob_terminal_failure:
  assumes ord: "getActiveOrder (store w) oid = Some order"
      and a1: "processOrderOnce deps order w = (Some e1, w1)"
      and a2: "processOrderOnce deps order
                 (w_sleep (computeExponentialBackoffMs 2 ORDER_BACKOFF_BASE_MS)
                    (log_call (CallWarnRetry 1 2 (computeExponentialBackoffMs 2 ORDER_BACKOFF_BASE_MS)
                                 (thrown_message e1)) w1)) = (Some e2, w2)"
      and a3: "processOrderOnce deps order
                 (w_sleep (computeExponentialBackoffMs 3 ORDER_BACKOFF_BASE_MS)
                    (log_call (CallWarnRetry 2 3 (computeExponentialBackoffMs 3 ORDER_BACKOFF_BASE_MS)
                                 (thrown_message e2)) w2)) = (Some e3, w3)"
  shows "(let res = executeOrderJob deps oid w;
              w' = snd res;
              reason = thrown_message e3;
              t = clock w3 (clock_calls w3);
              failedEv = EvFailed oid t reason;
              recorded = hasStatus (listEvents (store w3) oid) Failed
          in fst res = Some e3
           \<and> db w' = failOrder oid reason t (db w3)
           \<and> (db w3 oid \<noteq> None \<longrightarrow>
                map_option row_status (db w' oid) = Some Failed
              \<and> map_option failure_reason (db w' oid) = Some (Some reason))
           \<and> trace w' = trace w3 @ [CallFailOrder oid reason t]
                @ (if recorded then [] else [CallAppendEvent oid failedEv, CallPublish oid failedEv])
           \<and> listEvents (store w') oid
                = listEvents (store w3) oid @ (if recorded then [] else [failedEv])
           \<and> bus w' = (if recorded then bus w3 else publish oid failedEv (bus w3))
           \<and> sleeps w' = sleeps w3)"
proof -
  let ?run = "\<lambda>attempt::int. processOrderOnce deps order"
  let ?p1 = "w_sleep (computeExponentialBackoffMs 2 ORDER_BACKOFF_BASE_MS)
                    (log_call (CallWarnRetry 1 2 (computeExponentialBackoffMs 2 ORDER_BACKOFF_BASE_MS)
                                 (thrown_message e1)) w1)"
  let ?p2 = "w_sleep (computeExponentialBackoffMs 3 ORDER_BACKOFF_BASE_MS)
                    (log_call (CallWarnRetry 2 3 (computeExponentialBackoffMs 3 ORDER_BACKOFF_BASE_MS)
                                 (thrown_message e2)) w2)"
  have r3: "retry_loop 3 ORDER_BACKOFF_BASE_MS ?run 3 ?p2 = (Some e3, w3)"
    by (subst retry_loop.simps) (simp add: a3 Let_def)
  have r2: "retry_loop 3 ORDER_BACKOFF_BASE_MS ?run 2 ?p1 = (Some e3, w3)"
    by (subst retry_loop.simps) (simp add: a2 r3 Let_def)
  have r1: "retry_loop 3 ORDER_BACKOFF_BASE_MS ?run 1 w = (Some e3, w3)"
    by (subst retry_loop.simps) (simp add: a1 r2 Let_def)
  have run: "runWithRetries ORDER_MAX_ATTEMPTS ORDER_BACKOFF_BASE_MS ?run w = (Some e3, w3)"
    by (simp add: runWithRetries_def ORDER_MAX_ATTEMPTS_def r1)
  have ex: "executeOrderJob deps oid w =
      (Some e3,
       if \<not> hasStatus (listEvents (store w3) oid) Failed
       then emitEvent (EvFailed oid (clock w3 (clock_calls w3)) (thrown_message e3))
              (log_call (CallFailOrder oid (thrown_message e3) (clock w3 (clock_calls w3)))
                 (w3\<lparr>clock_calls := clock_calls w3 + 1,
                      db := failOrder oid (thrown_message e3) (clock w3 (clock_calls w3)) (db w3)\<rparr>))
       else log_call (CallFailOrder oid (thrown_message e3) (clock w3 (clock_calls w3)))
                 (w3\<lparr>clock_calls := clock_calls w3 + 1,
                      db := failOrder oid (thrown_message e3) (clock w3 (clock_calls w3)) (db w3)\<rparr>))"
    by (simp add: executeOrderJob_def ord run Let_def nowMs_def)
  have dbrow: "db w3 oid \<noteq> None \<longrightarrow>
      map_option row_status (failOrder oid (thrown_message e3) (clock w3 (clock_calls w3)) (db w3) oid) = Some Failed
    \<and> map_option failure_reason (failOrder oid (thrown_message e3) (clock w3 (clock_calls w3)) (db w3) oid)
        = Some (Some (thrown_message e3))"
    by (auto simp add: failOrder_def)
  show ?thesis
    using dbrow by (simp add: ex Let_def log_call_def append_all_def)
qed

theorem executeOrderJob_terminal_failure_witness:
  "fst (executeOrderJob failing_deps ''o1'' world_pending) = Some (ErrorObj ''routing failed'')
   \<and> map status (listEvents (store (snd (executeOrderJob failing_deps ''o1'' world_pending))) ''o1'')
       = [Pending, Routing, Failed]
   \<and> map_option failure_reason (db (snd (executeOrderJob failing_deps ''o1'' world_pending)) ''o1'')
       = Some (Some ''routing failed'')"
proof -
  define e where "e = ErrorObj ''routing failed''"
  define w1 where "w1 = snd (processOrderOnce failing_deps order1 world_pending)"
  define p1 where "p1 = w_sleep (computeExponentialBackoffMs 2 ORDER_BACKOFF_BASE_MS)
                    (log_call (CallWarnRetry 1 2 (computeExponentialBackoffMs 2 ORDER_BACKOFF_BASE_MS)
                                 (thrown_message e)) w1)"
  define w2 where "w2 = snd (processOrderOnce failing_deps order1 p1)"
  define p2 where "p2 = w_sleep (computeExponentialBackoffMs 3 ORDER_BACKOFF_BASE_MS)
                    (log_call (CallWarnRetry 2 3 (computeExponentialBackoffMs 3 ORDER_BACKOFF_BASE_MS)
                                 (thrown_message e)) w2)"
  define w3 where "w3 = snd (processOrderOnce failing_deps order1 p2)"
  have ord: "getActiveOrder (store world_pending) ''o1'' = Some order1"
    by (simp add: getActiveOrder_def world_pending_def)
  have l0: "listEvents (store world_pending) ''o1'' = [EvPending ''o1'' 1]"
    by (simp add: listEvents_def world_pending_def)
  have a1: "processOrderOnce failing_deps order1 world_pending = (Some e, w1)"
    by (simp add: w1_def e_def failing_attempt l0 terminal_log_def lastStatus_def)
  have l1: "map status (listEvents (store w1) ''o1'') = [Pending, Routing]"
    by (simp add: w1_def failing_attempt l0 terminal_log_def lastStatus_def hasStatus_iff unless_list_def)
  have l1': "map status (listEvents (store p1) ''o1'') = [Pending, Routing]"
    using l1 by (simp add: p1_def)
  have nt1: "\<not> terminal_log (listEvents (store p1) ''o1'')"
    using l1' by (auto simp add: terminal_log_def lastStatus_def map_eq_Cons_conv)
  have a2: "processOrderOnce failing_deps order1 p1 = (Some e, w2)"
    using nt1 by (simp add: w2_def e_def failing_attempt)
  have l2: "map status (listEvents (store w2) ''o1'') = [Pending, Routing]"
    using nt1 l1' by (simp add: w2_def failing_attempt hasStatus_iff unless_list_def)
  have l2': "map status (listEvents (store p2) ''o1'') = [Pending, Routing]"
    using l2 by (simp add: p2_def)
  have nt2: "\<not> terminal_log (listEvents (store p2) ''o1'')"
    using l2' by (auto simp add: terminal_log_def lastStatus_def map_eq_Cons_conv)
  have a3: "processOrderOnce failing_deps order1 p2 = (Some e, w3)"
    using nt2 by (simp add: w3_def e_def failing_attempt)
  have l3: "map status (listEvents (store w3) ''o1'') = [Pending, Routing]"
    using nt2 l2' by (simp add: w3_def failing_attempt hasStatus_iff unless_list_def)
  have db1: "db w1 = db world_pending"
    by (simp add: w1_def failing_attempt l0 terminal_log_def lastStatus_def)
  have db2: "db w2 = db w1"
    using nt1 by (simp add: w2_def failing_attempt p1_def)
  have db3: "db w3 = db w2"
    using nt2 by (simp add: w3_def failing_attempt p2_def)
  have row: "db w3 ''o1'' \<noteq> None"
    by (simp add: db3 db2 db1 world_pending_def)
  have nf: "\<not> hasStatus (listEvents (store w3) ''o1'') Failed"
    using l3 by (simp add: hasStatus_iff)
  note t = executeOrderJob_terminal_failure[OF ord a1 a2[unfolded p1_def] a3[unfolded p2_def], unfolded Let_def]
  have c1: "fst (executeOrderJob failing_deps ''o1'' world_pending) = Some e"
    by (rule t[THEN conjunct1])
  have c2: "map_option failure_reason (db (snd (executeOrderJob failing_deps ''o1'' world_pending)) ''o1'')
       = Some (Some (thrown_message e))"
    using t[THEN conjunct2, THEN conjunct2, THEN conjunct1] row by blast
  have c3: "listEvents (store (snd (executeOrderJob failing_deps ''o1'' world_pending))) ''o1''
       = listEvents (store w3) ''o1'' @ [EvFailed ''o1'' (clock w3 (clock_calls w3)) (thrown_message e)]"
    using t[THEN conjunct2, THEN conjunct2, THEN conjunct2, THEN conjunct2, THEN conjunct1] nf by simp
  show ?thesis
    using c1 c2 c3 l3 by (simp add: e_def)
qed



section \<open>The submission path\<close>

lemma body0_valid:
  "validateExecuteOrder body0 =
     Inr \<lparr>req_tokenIn = ''SOL'', req_tokenOut = ''USDC'', req_amount = 10, req_slippageBps = 50\<rparr>"
  by (simp add: validateExecuteOrder_def body0_def is_object_def js_prop_def isNonEmptyString_def
        isFiniteNumber_def js_number_def js_string_def js_whitespace_def)

lemma insertOrder_body0:
  "insertOrder \<lparr>orderId = ''order-'', orderType = Market, tokenIn = ''SOL'', tokenOut = ''USDC'',
                 amount = 10, slippageBps = 50, createdAtMs = 1000\<rparr> Map.empty
     = Inr [''order-'' \<mapsto> order_row \<lparr>orderId = ''order-'', orderType = Market, tokenIn = ''SOL'',
                                        tokenOut = ''USDC'', amount = 10, slippageBps = 50,
                                        createdAtMs = 1000\<rparr>]"
  by (simp add: insertOrder_def pg_integer_param_def)

text \<open>
  Claim C3, as stated: the pending event is appended and published before the job is
  dispatched. It fails on a valid submission: in the calls of the handler the dispatch
  comes first, and neither the append nor the publish of \<open>pending\<close> precedes it.
\<close>

theorem pending_before_dispatch_counterexample:
  "validateExecuteOrder body0 =
     Inr \<lparr>req_tokenIn = ''SOL'', req_tokenOut = ''USDC'', req_amount = 10, req_slippageBps = 50\<rparr>
   \<and> fst (post_execute body0 world0) = Reply200 ''order-''
   \<and> precedes (CallEnqueue ''order-'') (CallAppendEvent ''order-'' (EvPending ''order-'' 1001))
          (trace (snd (post_execute body0 world0)))
   \<and> \<not> precedes (CallAppendEvent ''order-'' (EvPending ''order-'' 1001)) (CallEnqueue ''order-'')
          (trace (snd (post_execute body0 world0)))
   \<and> \<not> precedes (CallPublish ''order-'' (EvPending ''order-'' 1001)) (CallEnqueue ''order-'')
          (trace (snd (post_execute body0 world0)))"
  by (simp add: body0_valid post_execute_def Let_def next_uuid_def nowMs_def enqueue_def
        emitPending_def w_publish_def w_appendEvent_def log_call_def world0_def insertOrder_body0)

lemma emitPending_trace:
  "trace (emitPending oid w) =
     trace w @ [CallAppendEvent oid (EvPending oid (clock w (clock_calls w))),
                CallPublish oid (EvPending oid (clock w (clock_calls w)))]"
  by (simp add: emitPending_def nowMs_def Let_def w_publish_def w_appendEvent_def)

text \<open>
  Claim C3, amended. Take any valid submission. If the order history accepts the row, the
  handler calls, in this order: store the order, insert the durable row, dispatch the job
  keyed by the order identifier, append the pending event to the store, publish it on the
  bus; it replies 200. So the dispatch precedes the emission of \<open>pending\<close>, and within
  the emission the append precedes the publish. If the order history rejects the row (a
  validated \<open>slippageBps\<close> need not be an integer), the handler stops after the insert:
  it replies 500, dispatches no job and emits no \<open>pending\<close>.
\<close>

theorem post_execute_dispatch_then_pending:
  assumes "validateExecuteOrder body = Inr v"
  shows "(let oid = uuidv4 w (uuidv4_calls w);
              order = \<lparr>orderId = oid, orderType = Market, tokenIn = req_tokenIn v,
                       tokenOut = req_tokenOut v, amount = req_amount v,
                       slippageBps = req_slippageBps v, createdAtMs = clock w (clock_calls w)\<rparr>;
              pendingEvent = EvPending oid (clock w (clock_calls w + 1));
              res = post_execute body w
          in case insertOrder order (db w) of
               Inr t \<Rightarrow>
                 fst res = Reply200 oid
                 \<and> trace (snd res) = trace w @
                     [CallPutActiveOrder oid, CallInsertOrder oid, CallEnqueue oid,
                      CallAppendEvent oid pendingEvent, CallPublish oid pendingEvent,
                      CallLogInfo ''order.submitted'' oid]
                 \<and> db (snd res) = t
                 \<and> queue_jobs (snd res) = queue_jobs w @ [oid]
                 \<and> listEvents (store (snd res)) oid = listEvents (store w) oid @ [pendingEvent]
                 \<and> precedes (CallEnqueue oid) (CallAppendEvent oid pendingEvent)
                      (drop (length (trace w)) (trace (snd res)))
                 \<and> precedes (CallAppendEvent oid pendingEvent) (CallPublish oid pendingEvent)
                      (drop (length (trace w)) (trace (snd res)))
             | Inl err \<Rightarrow>
                 fst res = Reply500 err
                 \<and> trace (snd res) = trace w @ [CallPutActiveOrder oid, CallInsertOrder oid]
                 \<and> db (snd res) = db w
                 \<and> queue_jobs (snd res) = queue_jobs w
                 \<and> listEvents (store (snd res)) oid = listEvents (store w) oid
                 \<and> bus (snd res) = bus w)"
proof (cases "insertOrder \<lparr>orderId = uuidv4 w (uuidv4_calls w), orderType = Market,
                 tokenIn = req_tokenIn v, tokenOut = req_tokenOut v, amount = req_amount v,
                 slippageBps = req_slippageBps v, createdAtMs = clock w (clock_calls w)\<rparr> (db w)")
  case (Inl err)
  then show ?thesis using assms
    by (simp add: post_execute_def Let_def next_uuid_def nowMs_def putActiveOrder_def
          listEvents_def log_call_def)
next
  case (Inr t)
  then show ?thesis using assms
    by (simp add: post_execute_def Let_def next_uuid_def nowMs_def enqueue_def emitPending_trace
          emitPending_def w_publish_def w_appendEvent_def putActiveOrder_def listEvents_def
          appendEvent_def log_call_def)
qed

lemma body_fraction_valid:
  "validateExecuteOrder body_fraction =
     Inr \<lparr>req_tokenIn = ''SOL'', req_tokenOut = ''USDC'', req_amount = 10, req_slippageBps = 101 / 2\<rparr>"
  by (simp add: validateExecuteOrder_def body_fraction_def is_object_def js_prop_def
        isNonEmptyString_def isFiniteNumber_def js_number_def js_string_def js_whitespace_def)

lemma insertOrder_body_fraction:
  "insertOrder \<lparr>orderId = ''order-'', orderType = Market, tokenIn = ''SOL'', tokenOut = ''USDC'',
                 amount = 10, slippageBps = 101 / 2, createdAtMs = 1000\<rparr> Map.empty
     = Inl InvalidTextRepresentation"
  by (simp add: insertOrder_def pg_integer_param_def)

theorem post_execute_dispatch_then_pending_witness:
  "validateExecuteOrder body0 =
     Inr \<lparr>req_tokenIn = ''SOL'', req_tokenOut = ''USDC'', req_amount = 10, req_slippageBps = 50\<rparr>
   \<and> fst (post_execute body0 world0) = Reply200 ''order-''
   \<and> trace (snd (post_execute body0 world0)) =
     [CallPutActiveOrder ''order-'', CallInsertOrder ''order-'', CallEnqueue ''order-'',
      CallAppendEvent ''order-'' (EvPending ''order-'' 1001),
      CallPublish ''order-'' (EvPending ''order-'' 1001),
      CallLogInfo ''order.submitted'' ''order-'']
   \<and> validateExecuteOrder body_fraction =
     Inr \<lparr>req_tokenIn = ''SOL'', req_tokenOut = ''USDC'', req_amount = 10, req_slippageBps = 101 / 2\<rparr>
   \<and> fst (post_execute body_fraction world0) = Reply500 InvalidTextRepresentation
   \<and> trace (snd (post_execute body_fraction world0)) =
     [CallPutActiveOrder ''order-'', CallInsertOrder ''order-'']
   \<and> queue_jobs (snd (post_execute body_fraction world0)) = []
   \<and> listEvents (store (snd (post_execute body_fraction world0))) ''order-'' = []"
proof -
  have w0: "uuidv4 world0 (uuidv4_calls world0) = ''order-''" "clock world0 (clock_calls world0) = 1000"
    "clock world0 (clock_calls world0 + 1) = 1001" "db world0 = Map.empty" "trace world0 = []"
    "queue_jobs world0 = []" "listEvents (store world0) ''order-'' = []"
    by (simp_all add: world0_def listEvents_def)
  have ok: "fst (post_execute body0 world0) = Reply200 ''order-''
          \<and> trace (snd (post_execute body0 world0)) =
             [CallPutActiveOrder ''order-'', CallInsertOrder ''order-'', CallEnqueue ''order-'',
              CallAppendEvent ''order-'' (EvPending ''order-'' 1001),
              CallPublish ''order-'' (EvPending ''order-'' 1001),
              CallLogInfo ''order.submitted'' ''order-'']"
    using post_execute_dispatch_then_pending[OF body0_valid, of world0]
    unfolding Let_def w0 by (simp add: insertOrder_body0)
  have bad: "fst (post_execute body_fraction world0) = Reply500 InvalidTextRepresentation
          \<and> trace (snd (post_execute body_fraction world0)) =
             [CallPutActiveOrder ''order-'', CallInsertOrder ''order-'']
          \<and> queue_jobs (snd (post_execute body_fraction world0)) = []
          \<and> listEvents (store (snd (post_execute body_fraction world0))) ''order-'' = []"
    using post_execute_dispatch_then_pending[OF body_fraction_valid, of world0]
    unfolding Let_def w0 by (simp add: insertOrder_body_fraction)
  show ?thesis using ok bad body0_valid body_fraction_valid by simp
qed

section \<open>The two event buses\<close>

lemma channel_orderId_channel [simp]: "channel_orderId (channel oid) = oid"
  by (simp add: channel_orderId_def channel_def)

lemma channel_inject [simp]: "channel a = channel b \<longleftrightarrow> a = b"
  by (simp add: channel_def)

lemma set_add_nonempty [simp]: "set_add h hs \<noteq> []"
  by (auto simp add: set_add_def)











text \<open>
  The hypothesis cannot be dropped. A subscribe after \<open>close\<close>, which the interface
  forbids, is accepted by the in-memory bus, which then delivers to it, while the
  channel-based bus has quit both connections and delivers nothing.
\<close>

lemma subscribe_after_close_differs:
  "\<not> no_subscribe_after_close ops_use_after_close
   \<and> mem_received ops_use_after_close 0 = [EvPending ''o1'' 1]
   \<and> redis_received ops_use_after_close 0 = []"
  by (simp add: mem_received_def redis_received_def ops_use_after_close_def mem_new_def redis_new_def
        close_def subscribe_def publish_def r_close_def r_subscribe_def r_publish_def set_add_def
        call_handlers_def received_def Let_def)

section \<open>The streaming gateway\<close>

lemma insert_by_lifecycle: "insert_by sortByLifecycle x ys = insort_key rank_of x ys"
  by (induction ys) (simp_all add: sortByLifecycle_def rank_of_def)

lemma js_sort_lifecycle: "js_sort sortByLifecycle xs = sort_key rank_of xs"
  by (induction xs) (simp_all add: js_sort_def insert_by_lifecycle)

lemma js_sort_sorted_id: "sorted (map rank_of xs) \<Longrightarrow> js_sort sortByLifecycle xs = xs"
  by (simp add: js_sort_lifecycle sort_key_id_if_sorted)

lemma status_in_take_iff:
  assumes d: "distinct (map status L)" and m: "m < length L" and n: "n \<le> length L"
  shows "status (L ! m) \<in> status ` set (take n L) \<longleftrightarrow> m < n"
proof
  assume "status (L ! m) \<in> status ` set (take n L)"
  then obtain i where i: "i < n" "i < length L" "status (L ! i) = status (L ! m)"
    using n by (auto simp add: in_set_conv_nth)
  have "i < length (map status L)" "m < length (map status L)"
       "map status L ! i = map status L ! m"
    using i m by simp_all
  then have "i = m" using d by (simp only: nth_eq_iff_index_eq)
  then show "m < n" using i by simp
next
  assume "m < n"
  then have "L ! m \<in> set (take n L)" using m by (auto simp add: in_set_conv_nth)
  then show "status (L ! m) \<in> status ` set (take n L)" by blast
qed

lemma send_range:
  assumes d: "distinct (map status L)"
  shows "i \<le> m \<Longrightarrow> m \<le> length L \<Longrightarrow> n \<le> length L \<Longrightarrow> i \<le> n
         \<Longrightarrow> sent c = status ` set (take n L)
         \<Longrightarrow> foldl send_unsent c (drop i (take m L)) =
               c\<lparr>sent := status ` set (take (max n m) L),
                  ws_sent := (if ws_open c then ws_sent c @ drop n (take (max n m) L) else ws_sent c)\<rparr>"
proof (induction m)
  case 0
  then show ?case by simp
next
  case (Suc m)
  show ?case
  proof (cases "i = Suc m")
    case True
    then have "max n (Suc m) = n" using Suc.prems by simp
    then show ?thesis using True Suc.prems by simp
  next
    case False
    then have im: "i \<le> m" using Suc.prems by simp
    have ml: "m < length L" using Suc.prems by simp
    have seg: "drop i (take (Suc m) L) = drop i (take m L) @ [L ! m]"
      using im ml by (simp add: take_Suc_conv_app_nth)
    let ?c = "c\<lparr>sent := status ` set (take (max n m) L),
                  ws_sent := (if ws_open c then ws_sent c @ drop n (take (max n m) L) else ws_sent c)\<rparr>"
    have ih: "foldl send_unsent c (drop i (take m L)) = ?c"
      using Suc.IH[OF im] Suc.prems by simp
    have mem: "status (L ! m) \<in> status ` set (take (max n m) L) \<longleftrightarrow> m < n"
      using status_in_take_iff[OF d ml, of "max n m"] Suc.prems by auto
    have step: "foldl send_unsent c (drop i (take (Suc m) L)) = send_unsent ?c (L ! m)"
      by (simp only: seg foldl_append ih foldl.simps)
    show ?thesis
    proof (cases "m < n")
      case True
      then have mx: "max n (Suc m) = n" "max n m = n" by simp_all
      show ?thesis unfolding step using True mem by (simp add: send_unsent_def mx)
    next
      case False
      then have mx: "max n (Suc m) = Suc m" "max n m = m" by simp_all
      have t: "take (Suc m) L = take m L @ [L ! m]" using ml by (simp add: take_Suc_conv_app_nth)
      have im2: "status ` set (take (Suc m) L) = insert (status (L ! m)) (status ` set (take m L))"
        by (simp add: t)
      have dr: "drop n (take (Suc m) L) = drop n (take m L) @ [L ! m]"
        using False ml by (simp add: t)
      show ?thesis unfolding step using False mem
        by (simp add: send_unsent_def safeSend_def mx im2 dr)
    qed
  qed
qed


lemma insort_key_snoc:
  "f y \<le> f x \<Longrightarrow> insort_key f y (ws @ [x]) = insort_key f y ws @ [x]"
  by (induction ws) simp_all

lemma foldr_insort_snoc:
  "\<forall>y\<in>set xs. f y \<le> f x
   \<Longrightarrow> foldr (insort_key f) xs (zs @ [x]) = foldr (insort_key f) xs zs @ [x]"
  by (induction xs) (simp_all add: insort_key_snoc)

lemma sort_key_snoc_greatest:
  "\<forall>y\<in>set xs. f y \<le> f x \<Longrightarrow> sort_key f (xs @ [x]) = sort_key f xs @ [x]"
  using foldr_insort_snoc[of xs f x "[]"] by (simp add: sort_key_def)

lemma foldr_insort_least:
  "sorted (map f xs) \<Longrightarrow> \<forall>y\<in>set xs. f x < f y \<Longrightarrow> foldr (insort_key f) xs [x] = x # xs"
proof (induction xs)
  case Nil
  then show ?case by simp
next
  case (Cons y ys)
  then have ih: "foldr (insort_key f) ys [x] = x # ys" by simp
  have "insort_key f y ys = y # ys"
    using Cons.prems(1) by (cases ys) auto
  moreover have "\<not> f y \<le> f x" using Cons.prems(2) by auto
  ultimately show ?case using ih by simp
qed

lemma sort_key_snoc_least:
  "sorted (map f xs) \<Longrightarrow> \<forall>y\<in>set xs. f x < f y \<Longrightarrow> sort_key f (xs @ [x]) = x # xs"
  using foldr_insort_least[of f xs x] by (simp add: sort_key_def)

lemma sorted_take_le:
  assumes "sorted (map f L)" "n < length L" "y \<in> set (take n L)"
  shows "f y \<le> f (L ! n)"
proof -
  from assms(3) obtain i where i: "i < n" "i < length L" "y = L ! i"
    using assms(2) by (auto simp add: in_set_conv_nth)
  have "map f L ! i \<le> map f L ! n"
    using assms(1,2) i by (intro sorted_nth_mono) simp_all
  then show ?thesis using i assms(2) by simp
qed

lemma statusRank_inj: "statusRank x = statusRank y \<Longrightarrow> x = y"
  by (cases x; cases y) simp_all

lemma head_least:
  assumes "sorted (map rank_of (pe # W))" "distinct (map status (pe # W))"
  shows "\<forall>e\<in>set W. rank_of pe < rank_of e"
proof
  fix e assume e: "e \<in> set W"
  then have le: "rank_of pe \<le> rank_of e" using assms(1) by auto
  have "status pe \<noteq> status e" using assms(2) e by auto
  then have "rank_of pe \<noteq> rank_of e" using statusRank_inj by (auto simp add: rank_of_def)
  then show "rank_of pe < rank_of e" using le by simp
qed

lemma subscribed_handlers_publish [simp]:
  "subscribed_handlers (publish oid' ev b) oid = subscribed_handlers b oid"
  by (simp add: subscribed_handlers_def publish_def split: option.splits)

lemma subscribed_handlers_subscribe [simp]:
  "subscribed_handlers (subscribe oid h b) oid = set_add h (subscribed_handlers b oid)"
  by (simp add: subscribed_handlers_def subscribe_def Let_def split: option.splits)

lemma subscribed_handlers_unsubscribe [simp]:
  "subscribed_handlers (unsubscribe oid h b) oid = set_delete h (subscribed_handlers b oid)"
  by (simp add: subscribed_handlers_def unsubscribe_def set_delete_def split: option.splits)

lemma in_set_add [simp]: "h \<in> set (set_add h hs)"
  by (simp add: set_add_def)

lemma notin_set_delete [simp]: "h \<notin> set (set_delete h hs)"
  by (simp add: set_delete_def)

lemma sorted_take_map: "sorted (map f L) \<Longrightarrow> sorted (map f (take k L))"
  by (simp add: take_map[symmetric] sorted_wrt_take)

lemma sorted_drop_take_map: "sorted (map f L) \<Longrightarrow> sorted (map f (drop j (take k L)))"
  by (simp add: take_map[symmetric] drop_map[symmetric] sorted_wrt_take sorted_wrt_drop)


lemma status_worker_sent:
  assumes d: "distinct (map status (pe # W))" and p: "p < length W" and n: "n \<le> length W"
  shows "status (W ! p) \<in> status ` set (pe # take n W) \<longleftrightarrow> p < n"
  using status_in_take_iff[OF d, of "Suc p" "Suc n"] p n by simp

lemma worker_event_greatest:
  assumes srt: "sorted (map rank_of (pe # W))" and p: "p < length W"
      and y: "y \<in> set (pe # take p W)"
  shows "rank_of y \<le> rank_of (W ! p)"
  using sorted_take_le[OF srt, of "Suc p" y] p y by simp

lemma buffer_ok_mono: "buffer_ok pe W j p pub buf \<Longrightarrow> (pub \<longrightarrow> pub') \<Longrightarrow> buffer_ok pe W j p pub' buf"
  by (auto simp add: buffer_ok_def)

lemma buffer_ok_worker:
  assumes srt: "sorted (map rank_of (pe # W))" and jp: "j \<le> p" and pl: "p < length W"
      and ok: "buffer_ok pe W j p pub buf"
  shows "buffer_ok pe W j (Suc p) pub (buf @ [W ! p])"
proof -
  have seg: "drop j (take (Suc p) W) = drop j (take p W) @ [W ! p]"
    using jp pl by (simp add: take_Suc_conv_app_nth)
  from ok consider (plain) "buf = drop j (take p W)"
    | (mixed) "pub" "sort_key rank_of buf = pe # drop j (take p W)"
    by (auto simp add: buffer_ok_def)
  then show ?thesis
  proof cases
    case plain
    then show ?thesis by (simp add: buffer_ok_def seg)
  next
    case mixed
    have "set buf = set (pe # drop j (take p W))" using mixed(2) by (metis set_sort)
    then have "\<forall>y\<in>set buf. rank_of y \<le> rank_of (W ! p)"
      using worker_event_greatest[OF srt pl] by (auto dest: in_set_dropD)
    then have "sort_key rank_of (buf @ [W ! p]) = sort_key rank_of buf @ [W ! p]"
      by (rule sort_key_snoc_greatest)
    then show ?thesis using mixed by (simp add: buffer_ok_def seg)
  qed
qed

lemma buffer_ok_pending:
  assumes srt: "sorted (map rank_of (pe # W))" and d: "distinct (map status (pe # W))"
      and ok: "buffer_ok pe W j p False buf"
  shows "buffer_ok pe W j p True (buf @ [pe])"
proof -
  have buf: "buf = drop j (take p W)" using ok by (simp add: buffer_ok_def)
  have "sorted (map rank_of W)" using srt by simp
  then have s: "sorted (map rank_of buf)" unfolding buf by (rule sorted_drop_take_map)
  have "\<forall>y\<in>set buf. rank_of pe < rank_of y"
    unfolding buf using head_least[OF srt d] by (auto dest: in_set_dropD in_set_takeD)
  with s have "sort_key rank_of (buf @ [pe]) = pe # buf" by (rule sort_key_snoc_least)
  then show ?thesis by (simp add: buffer_ok_def buf)
qed

lemma flush_backlog_unfold:
  "flush_backlog backlog c =
     (let c1 = foldl send_unsent c (js_sort sortByLifecycle backlog);
          xs = js_sort sortByLifecycle (buffer c1)
      in foldl send_unsent (c1\<lparr>backlogFlushed := True, buffer := xs\<rparr>) xs)"
  by (simp add: flush_backlog_def Let_def)

lemma flush_backlog_fields:
  assumes srt: "sorted (map rank_of (pe # W))" and d: "distinct (map status (pe # W))"
      and b: "j \<le> p" "j \<le> k" "k \<le> length W" "p \<le> length W"
      and c: "sent c = {}" "ws_sent c = []"
      and buf: "buffer_ok pe W j p pub (buffer c)"
      and bl: "sort_key rank_of backlog = pe # take k W"
  shows "sent (flush_backlog backlog c) = status ` set (pe # take (max k p) W)
       \<and> ws_sent (flush_backlog backlog c) = (if ws_open c then pe # take (max k p) W else [])
       \<and> backlogFlushed (flush_backlog backlog c)
       \<and> ws_open (flush_backlog backlog c) = ws_open c"
proof -
  let ?L = "pe # W"
  let ?Y = "drop j (take p W)"
  let ?c1 = "c\<lparr>sent := status ` set (take (Suc k) ?L),
               ws_sent := (if ws_open c then take (Suc k) ?L else [])\<rparr>"
  have s1: "js_sort sortByLifecycle backlog = take (Suc k) ?L"
    using bl by (simp add: js_sort_lifecycle)
  have l1: "foldl send_unsent c (take (Suc k) ?L) = ?c1"
    using send_range[OF d, of 0 "Suc k" 0 c] b c by simp
  have Y: "?Y = drop (Suc j) (take (Suc p) ?L)" by simp
  have sY: "sorted (map rank_of ?Y)"
    using srt sorted_drop_take_map[of rank_of W j p] by simp
  have mx: "max (Suc k) (Suc p) = Suc (max k p)" by simp
  have tk: "take (Suc k) ?L @ drop (Suc k) (take (Suc (max k p)) ?L) = take (Suc (max k p)) ?L"
  proof -
    have "take (Suc k) (take (Suc (max k p)) ?L) = take (Suc k) ?L"
      by (simp only: take_take) (simp add: min_def)
    then show ?thesis by (metis append_take_drop_id)
  qed
  have l2: "foldl send_unsent (?c1\<lparr>backlogFlushed := True, buffer := xs\<rparr>) ?Y =
              (?c1\<lparr>backlogFlushed := True, buffer := xs\<rparr>)
                \<lparr>sent := status ` set (take (Suc (max k p)) ?L),
                 ws_sent := (if ws_open c then take (Suc (max k p)) ?L else [])\<rparr>" for xs
  proof -
    let ?c3 = "?c1\<lparr>backlogFlushed := True, buffer := xs\<rparr>"
    have "foldl send_unsent ?c3 (drop (Suc j) (take (Suc p) ?L)) =
            ?c3\<lparr>sent := status ` set (take (max (Suc k) (Suc p)) ?L),
                 ws_sent := (if ws_open ?c3
                             then ws_sent ?c3 @ drop (Suc k) (take (max (Suc k) (Suc p)) ?L)
                             else ws_sent ?c3)\<rparr>"
      by (rule send_range[OF d]) (use b in simp_all)
    then show ?thesis unfolding Y[symmetric] mx using tk by simp
  qed
  have pe_sent: "send_unsent (?c1\<lparr>backlogFlushed := True, buffer := xs\<rparr>) pe
                   = ?c1\<lparr>backlogFlushed := True, buffer := xs\<rparr>" for xs
    by (simp add: send_unsent_def)
  from buf consider (plain) "buffer c = ?Y"
    | (mixed) "sort_key rank_of (buffer c) = pe # ?Y"
    by (auto simp add: buffer_ok_def)
  then have "\<exists>xs. flush_backlog backlog c =
                (?c1\<lparr>backlogFlushed := True, buffer := xs\<rparr>)
                  \<lparr>sent := status ` set (take (Suc (max k p)) ?L),
                   ws_sent := (if ws_open c then take (Suc (max k p)) ?L else [])\<rparr>"
  proof cases
    case plain
    have "js_sort sortByLifecycle (buffer c) = ?Y"
      unfolding plain using sY by (rule js_sort_sorted_id)
    then have "flush_backlog backlog c = foldl send_unsent (?c1\<lparr>backlogFlushed := True, buffer := ?Y\<rparr>) ?Y"
      unfolding flush_backlog_unfold s1 l1 Let_def by simp
    then show ?thesis unfolding l2 by blast
  next
    case mixed
    have "js_sort sortByLifecycle (buffer c) = pe # ?Y"
      using mixed by (simp add: js_sort_lifecycle)
    then have "flush_backlog backlog c
                 = foldl send_unsent (?c1\<lparr>backlogFlushed := True, buffer := pe # ?Y\<rparr>) (pe # ?Y)"
      unfolding flush_backlog_unfold s1 l1 Let_def by simp
    also have "\<dots> = foldl send_unsent (?c1\<lparr>backlogFlushed := True, buffer := pe # ?Y\<rparr>) ?Y"
      by (simp only: foldl.simps pe_sent)
    finally show ?thesis unfolding l2 by blast
  qed
  then obtain xs where "flush_backlog backlog c =
                (?c1\<lparr>backlogFlushed := True, buffer := xs\<rparr>)
                  \<lparr>sent := status ` set (take (Suc (max k p)) ?L),
                   ws_sent := (if ws_open c then take (Suc (max k p)) ?L else [])\<rparr>" by blast
  then show ?thesis by simp
qed

lemma conn_inv_mono:
  "conn_inv pe W a p pub pc c b \<Longrightarrow> a \<le> a' \<Longrightarrow> conn_inv pe W a' p pub pc c b"
  unfolding conn_inv_def by (cases pc) (auto intro: order_trans)

lemma conn_inv_pub:
  "conn_inv pe W a p pub pc c b \<Longrightarrow> conn_inv pe W a p True pc c b"
  unfolding conn_inv_def by (cases pc) (auto intro: buffer_ok_mono)

lemma conn_inv_unheard:
  "\<not> listening pc \<Longrightarrow> conn_inv pe W a p pub pc c b \<Longrightarrow> conn_inv pe W a p' pub' pc c b"
  unfolding conn_inv_def listening_def by (cases pc) auto

lemma conn_inv_worker_event:
  assumes srt: "sorted (map rank_of (pe # W))" and d: "distinct (map status (pe # W))"
      and pl: "p < length W" and l: "listening pc"
      and ci: "conn_inv pe W (Suc p) p pub pc c b"
  shows "conn_inv pe W (Suc p) (Suc p) pub pc (on_bus_event (W ! p) c) b"
proof (cases pc)
  case Subscribed
  then obtain j where j: "j \<le> p" "buffer_ok pe W j p pub (buffer c)"
    and c: "sent c = {}" "\<not> backlogFlushed c" "ws_sent c = []"
    using ci unfolding conn_inv_def by auto
  have "\<exists>j'\<le>Suc p. buffer_ok pe W j' (Suc p) pub (buffer c @ [W ! p])"
    using buffer_ok_worker[OF srt j(1) pl j(2)] j(1) by (intro exI[of _ j]) simp
  then show ?thesis using Subscribed c unfolding conn_inv_def
    by (simp add: on_bus_event_def)
next
  case BacklogRead
  then obtain j k where j: "j \<le> p" "j \<le> k" "k \<le> Suc p" "buffer_ok pe W j p pub (buffer c)"
      "sort_key rank_of b = pe # take k W"
    and c: "sent c = {}" "\<not> backlogFlushed c" "ws_sent c = []"
    using ci unfolding conn_inv_def by auto
  have "\<exists>j' k'. j' \<le> Suc p \<and> j' \<le> k' \<and> k' \<le> Suc p
           \<and> buffer_ok pe W j' (Suc p) pub (buffer c @ [W ! p])
           \<and> sort_key rank_of b = pe # take k' W"
    using buffer_ok_worker[OF srt j(1) pl j(4)] j by (intro exI[of _ j] exI[of _ k]) simp
  then show ?thesis using BacklogRead c unfolding conn_inv_def
    by (simp add: on_bus_event_def)
next
  case Streaming
  then obtain n where n: "p \<le> n" "n \<le> Suc p" "sent c = status ` set (pe # take n W)"
      "prefix (ws_sent c) (pe # take n W)" "ws_open c \<longrightarrow> ws_sent c = pe # take n W"
    and f: "backlogFlushed c"
    using ci unfolding conn_inv_def by auto
  have nl: "n \<le> length W" using n pl by simp
  have mem: "status (W ! p) \<in> sent c \<longleftrightarrow> p < n"
    unfolding n(3) by (rule status_worker_sent[OF d pl nl])
  show ?thesis
  proof (cases "p < n")
    case True
    then have "on_bus_event (W ! p) c = c" using mem by (simp add: on_bus_event_def)
    moreover have "n = Suc p" using True n by simp
    ultimately show ?thesis using Streaming n f unfolding conn_inv_def by auto
  next
    case False
    then have np: "n = p" using n by simp
    have t: "take (Suc p) W = take p W @ [W ! p]" using pl by (simp add: take_Suc_conv_app_nth)
    have ev: "on_bus_event (W ! p) c = safeSend (W ! p) (c\<lparr>sent := insert (status (W ! p)) (sent c)\<rparr>)"
      using False mem f by (simp add: on_bus_event_def)
    have pp: "prefix xs (pe # take p W @ [W ! p])" if "prefix xs (pe # take p W)" for xs
      using prefix_prefix[OF that, of "[W ! p]"] by simp
    have "conn_inv pe W (Suc p) (Suc p) pub Streaming
            (safeSend (W ! p) (c\<lparr>sent := insert (status (W ! p)) (sent c)\<rparr>)) b"
      unfolding conn_inv_def
      using n f np t by (auto simp add: safeSend_def intro: pp intro!: exI[of _ "Suc p"])
    then show ?thesis using ev Streaming by simp
  qed
qed (use l in \<open>simp_all add: listening_def\<close>)

lemma conn_inv_pending_event:
  assumes srt: "sorted (map rank_of (pe # W))" and d: "distinct (map status (pe # W))"
      and l: "listening pc"
      and ci: "conn_inv pe W a p False pc c b"
  shows "conn_inv pe W a p True pc (on_bus_event pe c) b"
proof (cases pc)
  case Subscribed
  then obtain j where j: "j \<le> p" "buffer_ok pe W j p False (buffer c)"
    and c: "sent c = {}" "\<not> backlogFlushed c" "ws_sent c = []"
    using ci unfolding conn_inv_def by auto
  have "\<exists>j'\<le>p. buffer_ok pe W j' p True (buffer c @ [pe])"
    using buffer_ok_pending[OF srt d j(2)] j(1) by (intro exI[of _ j]) simp
  then show ?thesis using Subscribed c unfolding conn_inv_def
    by (simp add: on_bus_event_def)
next
  case BacklogRead
  then obtain j k where j: "j \<le> p" "j \<le> k" "k \<le> a" "buffer_ok pe W j p False (buffer c)"
      "sort_key rank_of b = pe # take k W"
    and c: "sent c = {}" "\<not> backlogFlushed c" "ws_sent c = []"
    using ci unfolding conn_inv_def by auto
  have "\<exists>j' k'. j' \<le> p \<and> j' \<le> k' \<and> k' \<le> a
           \<and> buffer_ok pe W j' p True (buffer c @ [pe])
           \<and> sort_key rank_of b = pe # take k' W"
    using buffer_ok_pending[OF srt d j(4)] j by (intro exI[of _ j] exI[of _ k]) simp
  then show ?thesis using BacklogRead c unfolding conn_inv_def
    by (simp add: on_bus_event_def)
next
  case Streaming
  then have "status pe \<in> sent c" using ci unfolding conn_inv_def by auto
  then have "on_bus_event pe c = c" by (simp add: on_bus_event_def)
  then show ?thesis using Streaming ci unfolding conn_inv_def by simp
qed (use l in \<open>simp_all add: listening_def\<close>)

lemma gw_inv_init: "gw_inv pe W oid h (gw_init (pe # W))"
  unfolding gw_inv_def gw_init_def
  by (rule exI[of _ 0], rule exI[of _ 0])
     (simp add: listEvents_def subscribed_handlers_def mem_new_def listening_def conn_inv_def
        api_inv_def)

lemma gw_inv_writer_append:
  assumes srt: "sorted (map rank_of (pe # W))"
      and ids: "\<forall>e\<in>set (pe # W). event_orderId e = oid" and inv: "gw_inv pe W oid h s"
  shows "gw_inv pe W oid h (gw_step oid h s WriterAppend)"
proof -
  from inv obtain a p where ap:
    "a \<le> length W" "g_script s = drop a W"
    "(g_in_flight s = None \<and> p = a) \<or> (0 < a \<and> g_in_flight s = Some (W ! (a - 1)) \<and> p = a - 1)"
    "api_inv pe W a oid s"
    "h \<in> set (subscribed_handlers (g_bus s) oid) \<longleftrightarrow> listening (g_pc s)"
    "conn_inv pe W a p (pending_published s) (g_pc s) (g_conn s) (g_backlog s)"
    unfolding gw_inv_def by blast
  show ?thesis
  proof (cases "g_in_flight s = None \<and> a < length W")
    case False
    then have "gw_step oid h s WriterAppend = s"
      using ap(1,2) by (auto split: option.splits list.splits)
    then show ?thesis using inv by simp
  next
    case True
    then have al: "a < length W" and nf: "g_in_flight s = None" and pa: "p = a" using ap(3) by auto
    have scr: "g_script s = W ! a # drop (Suc a) W"
      using ap(2) al by (simp add: Cons_nth_drop_Suc)
    have id: "event_orderId (W ! a) = oid" using ids al by simp
    let ?s = "s\<lparr>g_store := appendEvent oid (W ! a) (g_store s),
                g_in_flight := Some (W ! a), g_script := drop (Suc a) W\<rparr>"
    have st: "gw_step oid h s WriterAppend = ?s"
      using nf scr id by simp
    have srt_step: "sort_key rank_of (xs @ [W ! a]) = pe # take (Suc a) W"
      if "sort_key rank_of xs = pe # take a W" for xs
    proof -
      have "set xs = set (pe # take a W)" using that by (metis set_sort)
      then have "\<forall>y\<in>set xs. rank_of y \<le> rank_of (W ! a)"
        using worker_event_greatest[OF srt al] by auto
      then have "sort_key rank_of (xs @ [W ! a]) = sort_key rank_of xs @ [W ! a]"
        by (rule sort_key_snoc_greatest)
      then show ?thesis using that al by (simp add: take_Suc_conv_app_nth)
    qed
    have api: "api_inv pe W (Suc a) oid ?s"
      using ap(4) al srt_step unfolding api_inv_def
      by (auto simp add: take_Suc_conv_app_nth)
    have pp: "pending_published ?s = pending_published s" by (simp add: pending_published_def)
    have "gw_inv pe W oid h ?s"
      unfolding gw_inv_def pp
      apply (rule exI[of _ "Suc a"], rule exI[of _ a])
      using al ap(5,6) pa api
        conn_inv_mono[of pe W a p "pending_published s" "g_pc s" "g_conn s" "g_backlog s" "Suc a"]
      by simp
    then show ?thesis using st by simp
  qed
qed

lemma gw_inv_writer_publish:
  assumes srt: "sorted (map rank_of (pe # W))" and d: "distinct (map status (pe # W))"
      and ids: "\<forall>e\<in>set (pe # W). event_orderId e = oid"
      and inv: "gw_inv pe W oid h s"
  shows "gw_inv pe W oid h (gw_step oid h s WriterPublish)"
proof -
  from inv obtain a p where ap:
    "a \<le> length W" "g_script s = drop a W"
    "(g_in_flight s = None \<and> p = a) \<or> (0 < a \<and> g_in_flight s = Some (W ! (a - 1)) \<and> p = a - 1)"
    "api_inv pe W a oid s"
    "h \<in> set (subscribed_handlers (g_bus s) oid) \<longleftrightarrow> listening (g_pc s)"
    "conn_inv pe W a p (pending_published s) (g_pc s) (g_conn s) (g_backlog s)"
    unfolding gw_inv_def by blast
  show ?thesis
  proof (cases "g_in_flight s")
    case None
    then show ?thesis using inv by simp
  next
    case (Some ev)
    then have a0: "0 < a" and ev: "ev = W ! p" and pa: "a = Suc p" using ap(3) by auto
    have pl: "p < length W" using pa ap(1) by simp
    have id: "event_orderId ev = oid" using ids ev pl by simp
    let ?c = "if listening (g_pc s) then on_bus_event ev (g_conn s) else g_conn s"
    let ?s = "s\<lparr>g_bus := publish oid ev (g_bus s), g_conn := ?c, g_in_flight := None\<rparr>"
    have st: "gw_step oid h s WriterPublish = ?s"
      using Some id ap(5) by (simp add: publish_to_conn_def)
    have ci: "conn_inv pe W a a (pending_published s) (g_pc s) ?c (g_backlog s)"
    proof (cases "listening (g_pc s)")
      case True
      then show ?thesis
        using conn_inv_worker_event[OF srt d pl True, of "pending_published s" "g_conn s" "g_backlog s"]
          ap(6) pa ev by simp
    next
      case False
      then show ?thesis using conn_inv_unheard[OF False ap(6)] by simp
    qed
    have api: "api_inv pe W a oid ?s" using ap(4) by (simp add: api_inv_def)
    have pp: "pending_published ?s = pending_published s" by (simp add: pending_published_def)
    have "gw_inv pe W oid h ?s"
      unfolding gw_inv_def pp
      apply (rule exI[of _ a], rule exI[of _ a])
      using ap(1,2,5) ci api by simp
    then show ?thesis using st by simp
  qed
qed

lemma gw_inv_api_append:
  assumes srt: "sorted (map rank_of (pe # W))" and d: "distinct (map status (pe # W))"
      and ids: "\<forall>e\<in>set (pe # W). event_orderId e = oid" and inv: "gw_inv pe W oid h s"
  shows "gw_inv pe W oid h (gw_step oid h s ApiAppend)"
proof -
  from inv obtain a p where ap:
    "a \<le> length W" "g_script s = drop a W"
    "(g_in_flight s = None \<and> p = a) \<or> (0 < a \<and> g_in_flight s = Some (W ! (a - 1)) \<and> p = a - 1)"
    "api_inv pe W a oid s"
    "h \<in> set (subscribed_handlers (g_bus s) oid) \<longleftrightarrow> listening (g_pc s)"
    "conn_inv pe W a p (pending_published s) (g_pc s) (g_conn s) (g_backlog s)"
    unfolding gw_inv_def by blast
  have id: "event_orderId pe = oid" using ids by simp
  show ?thesis
  proof (cases "g_api s = [pe] \<and> g_api_in_flight s = None")
    case False
    then have "gw_step oid h s ApiAppend = s"
      using ap(4) by (auto simp add: api_inv_def)
    then show ?thesis using inv by simp
  next
    case True
    then have lg: "listEvents (g_store s) oid = take a W"
      using ap(4) by (auto simp add: api_inv_def)
    let ?s = "s\<lparr>g_store := appendEvent oid pe (g_store s), g_api_in_flight := Some pe, g_api := []\<rparr>"
    have st: "gw_step oid h s ApiAppend = ?s" using True id by simp
    have least: "\<forall>y\<in>set (take a W). rank_of pe < rank_of y"
      using head_least[OF srt d] by (meson in_set_takeD)
    have "sorted (map rank_of (take a W))"
      using srt by (simp add: sorted_take_map)
    then have srtd: "sort_key rank_of (take a W @ [pe]) = pe # take a W"
      using least by (rule sort_key_snoc_least)
    have api: "api_inv pe W a oid ?s"
      using lg srtd by (simp add: api_inv_def)
    have pp: "pending_published ?s = False" "pending_published s = False"
      using True by (simp_all add: pending_published_def)
    have "gw_inv pe W oid h ?s"
      unfolding gw_inv_def pp(1)
      apply (rule exI[of _ a], rule exI[of _ p])
      using ap(1,2,3,5,6) api unfolding pp(2) by simp
    then show ?thesis using st by simp
  qed
qed

lemma gw_inv_api_publish:
  assumes srt: "sorted (map rank_of (pe # W))" and d: "distinct (map status (pe # W))"
      and ids: "\<forall>e\<in>set (pe # W). event_orderId e = oid" and inv: "gw_inv pe W oid h s"
  shows "gw_inv pe W oid h (gw_step oid h s ApiPublish)"
proof -
  from inv obtain a p where ap:
    "a \<le> length W" "g_script s = drop a W"
    "(g_in_flight s = None \<and> p = a) \<or> (0 < a \<and> g_in_flight s = Some (W ! (a - 1)) \<and> p = a - 1)"
    "api_inv pe W a oid s"
    "h \<in> set (subscribed_handlers (g_bus s) oid) \<longleftrightarrow> listening (g_pc s)"
    "conn_inv pe W a p (pending_published s) (g_pc s) (g_conn s) (g_backlog s)"
    unfolding gw_inv_def by blast
  have id: "event_orderId pe = oid" using ids by simp
  show ?thesis
  proof (cases "g_api_in_flight s")
    case None
    then show ?thesis using inv by simp
  next
    case (Some ev)
    then have ev: "ev = pe" and ga: "g_api s = []"
      and lg: "sort_key rank_of (listEvents (g_store s) oid) = pe # take a W"
      using ap(4) by (auto simp add: api_inv_def)
    let ?c = "if listening (g_pc s) then on_bus_event pe (g_conn s) else g_conn s"
    let ?s = "s\<lparr>g_bus := publish oid pe (g_bus s), g_conn := ?c, g_api_in_flight := None\<rparr>"
    have st: "gw_step oid h s ApiPublish = ?s"
      using Some ev id ap(5) by (simp add: publish_to_conn_def)
    have pp: "pending_published ?s = True" "pending_published s = False"
      using Some ga by (simp_all add: pending_published_def)
    have ci: "conn_inv pe W a p True (g_pc s) ?c (g_backlog s)"
    proof (cases "listening (g_pc s)")
      case True
      then show ?thesis
        using conn_inv_pending_event[OF srt d True, of a p "g_conn s" "g_backlog s"] ap(6)
        unfolding pp(2) by simp
    next
      case False
      then show ?thesis using conn_inv_pub[OF ap(6)] by simp
    qed
    have api: "api_inv pe W a oid ?s" using lg ga by (simp add: api_inv_def)
    have "gw_inv pe W oid h ?s"
      unfolding gw_inv_def pp(1)
      apply (rule exI[of _ a], rule exI[of _ p])
      using ap(1,2,3,5) ci api by simp
    then show ?thesis using st by simp
  qed
qed

lemma gw_inv_other:
  assumes srt: "sorted (map rank_of (pe # W))" and d: "distinct (map status (pe # W))"
      and sp: "status pe = Pending"
      and inv: "gw_inv pe W oid h s"
      and st: "step = GwSubscribe \<or> step = GwListEvents \<or> step = GwFlush
               \<or> step = SocketCloses \<or> step = GwOnClose"
      and rd: "step = GwListEvents \<and> g_pc s = Subscribed
               \<longrightarrow> hasStatus (listEvents (g_store s) oid) Pending"
  shows "gw_inv pe W oid h (gw_step oid h s step)"
proof -
  from inv obtain a p where ap:
    "a \<le> length W" "g_script s = drop a W"
    "(g_in_flight s = None \<and> p = a) \<or> (0 < a \<and> g_in_flight s = Some (W ! (a - 1)) \<and> p = a - 1)"
    "api_inv pe W a oid s"
    "h \<in> set (subscribed_handlers (g_bus s) oid) \<longleftrightarrow> listening (g_pc s)"
    "conn_inv pe W a p (pending_published s) (g_pc s) (g_conn s) (g_backlog s)"
    unfolding gw_inv_def by blast
  let ?pub = "pending_published s"
  have pa: "p \<le> a" using ap(3) by auto
  have goal: "gw_inv pe W oid h s'"
    if "g_store s' = g_store s" "g_script s' = g_script s" "g_in_flight s' = g_in_flight s"
       "g_api s' = g_api s" "g_api_in_flight s' = g_api_in_flight s"
       "h \<in> set (subscribed_handlers (g_bus s') oid) \<longleftrightarrow> listening (g_pc s')"
       "conn_inv pe W a p ?pub (g_pc s') (g_conn s') (g_backlog s')" for s'
  proof -
    have "api_inv pe W a oid s'"
      using ap(4) that(1,4,5) unfolding api_inv_def by simp
    moreover have "pending_published s' = ?pub"
      using that(4,5) by (simp add: pending_published_def)
    ultimately show ?thesis
      unfolding gw_inv_def
      apply -
      apply (rule exI[of _ a], rule exI[of _ p])
      using that ap(1,2,3) by simp
  qed
  consider (sub) "step = GwSubscribe" | (lst) "step = GwListEvents" | (fl) "step = GwFlush"
    | (sc) "step = SocketCloses" | (oc) "step = GwOnClose"
    using st by blast
  then show ?thesis
  proof cases
    case sub
    show ?thesis
    proof (cases "g_pc s = Connecting")
      case False
      then show ?thesis using sub inv by simp
    next
      case True
      then have c: "sent (g_conn s) = {}" "\<not> backlogFlushed (g_conn s)" "buffer (g_conn s) = []"
          "ws_sent (g_conn s) = []"
        using ap(6) by (simp_all add: conn_inv_def)
      show ?thesis
      proof (cases "oid = []")
        case True
        show ?thesis unfolding sub
          apply (rule goal)
          using \<open>g_pc s = Connecting\<close> True ap c
          by (simp_all add: listening_def conn_inv_def)
      next
        case False
        have "\<exists>j\<le>p. buffer_ok pe W j p ?pub []"
          by (rule exI[of _ p]) (simp add: buffer_ok_def)
        then show ?thesis unfolding sub
          apply -
          apply (rule goal)
          using \<open>g_pc s = Connecting\<close> False ap c
          by (simp_all add: listening_def conn_inv_def)
      qed
    qed
  next
    case lst
    show ?thesis
    proof (cases "g_pc s = Subscribed")
      case False
      then show ?thesis using lst inv by simp
    next
      case True
      then obtain j where j: "j \<le> p" "buffer_ok pe W j p ?pub (buffer (g_conn s))"
        and c: "sent (g_conn s) = {}" "\<not> backlogFlushed (g_conn s)" "ws_sent (g_conn s) = []"
        using ap(6) by (auto simp add: conn_inv_def)
      have hp: "hasStatus (listEvents (g_store s) oid) Pending" using rd lst True by simp
      have "listEvents (g_store s) oid \<noteq> take a W"
      proof
        assume eq: "listEvents (g_store s) oid = take a W"
        then obtain e where e: "e \<in> set (take a W)" "status e = Pending"
          using hp by (auto simp add: hasStatus_iff)
        then have "e \<in> set W" by (meson in_set_takeD)
        then have "status pe \<in> status ` set W" using sp e(2) by (metis image_eqI)
        then show False using d by simp
      qed
      then have lg: "sort_key rank_of (listEvents (g_store s) oid) = pe # take a W"
        using ap(4) unfolding api_inv_def by auto
      have ex: "\<exists>j k. j \<le> p \<and> j \<le> k \<and> k \<le> a \<and> buffer_ok pe W j p ?pub (buffer (g_conn s))
                  \<and> sort_key rank_of (listEvents (g_store s) oid) = pe # take k W"
        using j pa lg by (intro exI[of _ j] exI[of _ a]) simp
      show ?thesis unfolding lst
        apply (rule goal)
        using True ap c ex by (simp_all add: listening_def conn_inv_def)
    qed
  next
    case fl
    show ?thesis
    proof (cases "g_pc s = BacklogRead")
      case False
      then show ?thesis using fl inv by simp
    next
      case True
      then obtain j k where j: "j \<le> p" "j \<le> k" "k \<le> a" "buffer_ok pe W j p ?pub (buffer (g_conn s))"
          "sort_key rank_of (g_backlog s) = pe # take k W"
        and c: "sent (g_conn s) = {}" "\<not> backlogFlushed (g_conn s)" "ws_sent (g_conn s) = []"
        using ap(6) by (auto simp add: conn_inv_def)
      have kl: "k \<le> length W" and pl: "p \<le> length W" using j(3) pa ap(1) by simp_all
      note fr = flush_backlog_fields[OF srt d j(1,2) kl pl c(1,3) j(4,5)]
      have ex: "\<exists>n. p \<le> n \<and> n \<le> a
                 \<and> sent (flush_backlog (g_backlog s) (g_conn s)) = status ` set (pe # take n W)
                 \<and> prefix (ws_sent (flush_backlog (g_backlog s) (g_conn s))) (pe # take n W)
                 \<and> (ws_open (flush_backlog (g_backlog s) (g_conn s))
                      \<longrightarrow> ws_sent (flush_backlog (g_backlog s) (g_conn s)) = pe # take n W)"
        using j(3) pa fr by (intro exI[of _ "max k p"]) simp
      show ?thesis unfolding fl
        apply (rule goal)
        using True ap ex fr by (simp_all add: listening_def conn_inv_def)
    qed
  next
    case sc
    have "conn_inv pe W a p ?pub (g_pc s) ((g_conn s)\<lparr>ws_open := False\<rparr>) (g_backlog s)"
      using ap(6) unfolding conn_inv_def by (cases "g_pc s") auto
    then show ?thesis unfolding sc
      apply -
      apply (rule goal)
      using ap by simp_all
  next
    case oc
    show ?thesis
    proof (cases "g_pc s = Streaming \<and> \<not> ws_open (g_conn s)")
      case False
      then show ?thesis using oc inv by auto
    next
      case True
      then obtain n where "prefix (ws_sent (g_conn s)) (pe # take n W)"
        using ap(6) by (auto simp add: conn_inv_def)
      moreover have "prefix (pe # take n W) (pe # W)" by (simp add: take_is_prefix)
      ultimately have pr: "prefix (ws_sent (g_conn s)) (pe # W)"
        using prefix_order.trans by blast
      show ?thesis unfolding oc
        apply (rule goal)
        using True ap pr by (simp_all add: listening_def conn_inv_def)
    qed
  qed
qed

lemma gw_inv_step:
  assumes srt: "sorted (map rank_of (pe # W))" and d: "distinct (map status (pe # W))"
      and ids: "\<forall>e\<in>set (pe # W). event_orderId e = oid"
      and sp: "status pe = Pending"
      and inv: "gw_inv pe W oid h s"
      and rd: "step = GwListEvents \<and> g_pc s = Subscribed
               \<longrightarrow> hasStatus (listEvents (g_store s) oid) Pending"
  shows "gw_inv pe W oid h (gw_step oid h s step)"
proof (cases step)
  case WriterAppend
  then show ?thesis using gw_inv_writer_append[OF srt ids inv] by simp
next
  case WriterPublish
  then show ?thesis using gw_inv_writer_publish[OF srt d ids inv] by simp
next
  case ApiAppend
  then show ?thesis using gw_inv_api_append[OF srt d ids inv] by simp
next
  case ApiPublish
  then show ?thesis using gw_inv_api_publish[OF srt d ids inv] by simp
qed (use gw_inv_other[OF srt d sp inv _ rd] in blast)+

lemma gw_inv_foldl:
  assumes srt: "sorted (map rank_of (pe # W))" and d: "distinct (map status (pe # W))"
      and ids: "\<forall>e\<in>set (pe # W). event_orderId e = oid"
      and sp: "status pe = Pending"
  shows "gw_inv pe W oid h s \<Longrightarrow> backlog_has_pending oid h s steps
         \<Longrightarrow> gw_inv pe W oid h (foldl (gw_step oid h) s steps)"
proof (induction steps arbitrary: s)
  case Nil
  then show ?case by simp
next
  case (Cons step steps)
  have "gw_inv pe W oid h (gw_step oid h s step)"
    by (rule gw_inv_step[OF srt d ids sp Cons.prems(1)]) (use Cons.prems(2) in simp)
  then show ?case using Cons.IH Cons.prems(2) by simp
qed

lemma gw_inv_prefix: "gw_inv pe W oid h s \<Longrightarrow> prefix (ws_sent (g_conn s)) (pe # W)"
proof -
  assume "gw_inv pe W oid h s"
  then obtain a p where ci: "conn_inv pe W a p (pending_published s) (g_pc s) (g_conn s) (g_backlog s)"
    unfolding gw_inv_def by blast
  have tp: "\<And>xs n. prefix xs (pe # take n W) \<Longrightarrow> prefix xs (pe # W)"
  proof -
    fix xs n assume "prefix xs (pe # take n W)"
    moreover have "prefix (pe # take n W) (pe # W)" by (simp add: take_is_prefix)
    ultimately show "prefix xs (pe # W)" using prefix_order.trans by blast
  qed
  show ?thesis using ci unfolding conn_inv_def
    by (cases "g_pc s") (auto intro: tp)
qed

lemma gateway_sends_prefix:
  assumes "sorted (map rank_of L)" "distinct (map status L)" "\<forall>e\<in>set L. event_orderId e = oid"
      and "map status L \<noteq> []" "hd (map status L) = Pending"
      and "backlog_has_pending oid h (gw_init L) steps"
  shows "prefix (ws_sent (g_conn (gw_run oid h L steps))) L"
proof -
  obtain pe W where L: "L = pe # W" using assms(4) by (cases L) auto
  have sp: "status pe = Pending" using assms(5) L by simp
  show ?thesis
    unfolding gw_run_def L
    by (rule gw_inv_prefix[OF gw_inv_foldl[OF assms(1,2,3)[unfolded L] sp gw_inv_init assms(6)[unfolded L]]])
qed

text \<open>
  No status is written twice to a socket, for any events and any order in which the writer
  emits them.
\<close>

lemma send_unsent_ok: "conn_ok c \<Longrightarrow> conn_ok (send_unsent c ev)"
  by (auto simp add: conn_ok_def send_unsent_def safeSend_def)

lemma foldl_send_unsent_ok: "conn_ok c \<Longrightarrow> conn_ok (foldl send_unsent c evs)"
  by (induction evs arbitrary: c) (simp_all add: send_unsent_ok)

lemma on_bus_event_ok: "conn_ok c \<Longrightarrow> conn_ok (on_bus_event ev c)"
  by (auto simp add: conn_ok_def on_bus_event_def safeSend_def)

lemma conn_ok_frame:
  "conn_ok c \<Longrightarrow> sent c' = sent c \<Longrightarrow> ws_sent c' = ws_sent c \<Longrightarrow> conn_ok c'"
  by (simp add: conn_ok_def)

lemma flush_backlog_ok: "conn_ok c \<Longrightarrow> conn_ok (flush_backlog backlog c)"
proof -
  assume c: "conn_ok c"
  let ?c1 = "foldl send_unsent c (js_sort sortByLifecycle backlog)"
  let ?c3 = "?c1\<lparr>backlogFlushed := True, buffer := js_sort sortByLifecycle (buffer ?c1)\<rparr>"
  have "conn_ok ?c1" using c by (rule foldl_send_unsent_ok)
  then have "conn_ok ?c3" by (rule conn_ok_frame) simp_all
  then have "conn_ok (foldl send_unsent ?c3 (buffer ?c3))" by (rule foldl_send_unsent_ok)
  then show ?thesis by (simp add: flush_backlog_def Let_def)
qed

lemma gw_step_ok: "conn_ok (g_conn s) \<Longrightarrow> conn_ok (g_conn (gw_step oid h s step))"
proof (cases step)
  case ApiAppend
  then show "conn_ok (g_conn s) \<Longrightarrow> ?thesis" by (simp split: option.splits list.splits)
next
  case ApiPublish
  then show "conn_ok (g_conn s) \<Longrightarrow> ?thesis"
    by (simp add: publish_to_conn_def on_bus_event_ok split: option.splits)
next
  case WriterAppend
  then show "conn_ok (g_conn s) \<Longrightarrow> ?thesis" by (simp split: option.splits list.splits)
next
  case WriterPublish
  then show "conn_ok (g_conn s) \<Longrightarrow> ?thesis"
    by (simp add: publish_to_conn_def on_bus_event_ok split: option.splits)
next
  case GwSubscribe
  then show "conn_ok (g_conn s) \<Longrightarrow> ?thesis" by (simp add: conn_ok_def)
next
  case GwListEvents
  then show "conn_ok (g_conn s) \<Longrightarrow> ?thesis" by simp
next
  case GwFlush
  then show "conn_ok (g_conn s) \<Longrightarrow> ?thesis" by (simp add: flush_backlog_ok)
next
  case SocketCloses
  then show "conn_ok (g_conn s) \<Longrightarrow> ?thesis" by (simp add: conn_ok_def)
next
  case GwOnClose
  then show "conn_ok (g_conn s) \<Longrightarrow> ?thesis" by simp
qed

lemma gw_foldl_ok:
  "conn_ok (g_conn s) \<Longrightarrow> conn_ok (g_conn (foldl (gw_step oid h) s steps))"
  by (induction steps arbitrary: s) (simp_all add: gw_step_ok)

lemma gateway_never_repeats: "distinct (delivered_statuses (gw_run oid h script steps))"
proof -
  have "conn_ok (g_conn (gw_init script))" by (simp add: conn_ok_def gw_init_def)
  then have "conn_ok (g_conn (gw_run oid h script steps))"
    unfolding gw_run_def by (rule gw_foldl_ok)
  then show ?thesis by (simp add: conn_ok_def delivered_statuses_def)
qed

section \<open>The log a job leaves behind\<close>

lemma lastStatus_last:
  "lastStatus evs = (if evs = [] then None else Some (last (map status evs)))"
  by (simp add: lastStatus_def last_conv_nth)

lemma terminal_log_iff:
  "terminal_log evs \<longleftrightarrow> map status evs \<noteq> [] \<and> (last (map status evs) = Confirmed \<or> last (map status evs) = Failed)"
  by (auto simp add: terminal_log_def lastStatus_last)

lemma attempt_emitted_ids:
  "list_all (\<lambda>e. event_orderId e = orderId order) (emitted_by deps order w)"
  unfolding emitted_by_def
  by (simp add: processOrderOnce_def Let_def hasStatus_iff nowMs_def unless_list_def
        split: prod.splits sum.splits)

lemma attempt_advances:
  assumes oid: "orderId order = oid" and r: "resumable (log_statuses w oid)" and ids: "log_ids_ok w oid"
  shows "(case processOrderOnce deps order w of
            (None, w') \<Rightarrow> log_statuses w' oid = [Pending, Routing, Building, Submitted, Confirmed]
                          \<and> log_ids_ok w' oid
          | (Some e, w') \<Rightarrow> failed_attempt_log (log_statuses w' oid) \<and> log_ids_ok w' oid)"
proof -
  obtain res w' where p: "processOrderOnce deps order w = (res, w')"
    by (cases "processOrderOnce deps order w")
  have lg: "listEvents (store w') oid = listEvents (store w) oid @ emitted_by deps order w"
    using attempt_log[of deps order w] p oid by simp
  have ids': "log_ids_ok w' oid"
    using ids attempt_emitted_ids[of order deps w] oid by (simp add: log_ids_ok_def lg)
  have sts: "log_statuses w' oid = log_statuses w oid @ map status (emitted_by deps order w)"
    by (simp add: log_statuses_def lg)
  have res: "res = fst (processOrderOnce deps order w)" using p by simp
  have "(case res of
            None \<Rightarrow> log_statuses w' oid = [Pending, Routing, Building, Submitted, Confirmed]
          | Some e \<Rightarrow> failed_attempt_log (log_statuses w' oid))"
  proof -
    consider (a) "log_statuses w oid = [Pending]" | (b) "log_statuses w oid = [Pending, Routing]"
      | (c) "log_statuses w oid = [Pending, Routing, Building, Submitted]"
      | (d) "log_statuses w oid = [Pending, Routing, Building, Submitted, Confirmed]"
      using r unfolding resumable_def by blast
    then show ?thesis
    proof cases
      case a
      then show ?thesis
        unfolding sts res attempt_result attempt_emitted_statuses terminal_log_iff oid
          log_statuses_def[symmetric] failed_attempt_log_def Let_def
        by (simp add: unless_list_def split: prod.splits sum.splits)
    next
      case b
      then show ?thesis
        unfolding sts res attempt_result attempt_emitted_statuses terminal_log_iff oid
          log_statuses_def[symmetric] failed_attempt_log_def Let_def
        by (simp add: unless_list_def split: prod.splits sum.splits)
    next
      case c
      then show ?thesis
        unfolding sts res attempt_result attempt_emitted_statuses terminal_log_iff oid
          log_statuses_def[symmetric] failed_attempt_log_def Let_def
        by (simp add: unless_list_def split: prod.splits sum.splits)
    next
      case d
      then show ?thesis
        unfolding sts res attempt_result attempt_emitted_statuses terminal_log_iff oid
          log_statuses_def[symmetric] failed_attempt_log_def Let_def
        by (simp add: unless_list_def split: prod.splits sum.splits)
    qed
  qed
  then show ?thesis using p ids' by (simp split: option.splits)
qed

lemma retry_loop_rule:
  assumes step: "\<And>a w. I w \<Longrightarrow> (case run a w of (None, w') \<Rightarrow> Q w' | (Some e, w') \<Rightarrow> F w')"
      and pause: "\<And>w x y. F w \<Longrightarrow> I (w_sleep x (log_call y w))"
  shows "I w \<Longrightarrow> a \<le> m \<Longrightarrow> n = nat (m - a)
         \<Longrightarrow> (case retry_loop m b run a w of (None, w') \<Rightarrow> Q w' | (Some e, w') \<Rightarrow> F w')"
proof (induction n arbitrary: a w)
  case 0
  then have am: "a = m" by simp
  obtain r w1 where rw: "run a w = (r, w1)" by (cases "run a w")
  show ?case
    using step[OF "0.prems"(1), of a] rw am
    by (subst retry_loop.simps) (simp add: Let_def split: option.splits)
next
  case (Suc n)
  then have am: "a < m" by simp
  obtain r w1 where rw: "run a w = (r, w1)" by (cases "run a w")
  show ?case
  proof (cases r)
    case None
    then show ?thesis
      using step[OF Suc.prems(1), of a] rw am
      by (subst retry_loop.simps) simp
  next
    case (Some err)
    then have f: "F w1" using step[OF Suc.prems(1), of a] rw by simp
    let ?w3 = "w_sleep (computeExponentialBackoffMs (a + 1) b)
                 (log_call (CallWarnRetry a (a + 1) (computeExponentialBackoffMs (a + 1) b)
                              (thrown_message err)) w1)"
    have unfold: "retry_loop m b run a w = retry_loop m b run (a + 1) ?w3"
      using rw Some am by (subst retry_loop.simps) (simp add: Let_def)
    show ?thesis
      unfolding unfold
      using Suc.IH[of ?w3 "a + 1"] pause[OF f] Suc.prems am by simp
  qed
qed

lemma job_log_canonical:
  assumes ord: "getActiveOrder (store w) oid = Some order" and oid: "orderId order = oid"
      and r: "resumable (log_statuses w oid)" and ids: "log_ids_ok w oid"
  shows "log_statuses (snd (executeOrderJob deps oid w)) oid \<in> set canonical_orders
         \<and> log_ids_ok (snd (executeOrderJob deps oid w)) oid"
proof -
  let ?I = "\<lambda>w. resumable (log_statuses w oid) \<and> log_ids_ok w oid"
  let ?Q = "\<lambda>w. log_statuses w oid = [Pending, Routing, Building, Submitted, Confirmed] \<and> log_ids_ok w oid"
  let ?F = "\<lambda>w. failed_attempt_log (log_statuses w oid) \<and> log_ids_ok w oid"
  let ?run = "\<lambda>attempt::int. processOrderOnce deps order"
  have step: "(case ?run a w0 of (None, w') \<Rightarrow> ?Q w' | (Some e, w') \<Rightarrow> ?F w')" if "?I w0" for a w0
    using attempt_advances[OF oid, of w0 deps] that by simp
  have pause: "?I (w_sleep x (log_call y w0))" if "?F w0" for w0 x y
    using that by (auto simp add: failed_attempt_log_def resumable_def log_statuses_def log_ids_ok_def)
  have loop: "(case runWithRetries ORDER_MAX_ATTEMPTS ORDER_BACKOFF_BASE_MS ?run w of
                 (None, w') \<Rightarrow> ?Q w' | (Some e, w') \<Rightarrow> ?F w')"
    unfolding runWithRetries_def
    by (rule retry_loop_rule[where I = ?I and Q = ?Q and F = ?F and n = "nat (ORDER_MAX_ATTEMPTS - 1)",
              OF step pause])
       (use r ids in \<open>simp_all add: ORDER_MAX_ATTEMPTS_def\<close>)
  obtain res w1 where rw: "runWithRetries ORDER_MAX_ATTEMPTS ORDER_BACKOFF_BASE_MS ?run w = (res, w1)"
    by (cases "runWithRetries ORDER_MAX_ATTEMPTS ORDER_BACKOFF_BASE_MS ?run w")
  show ?thesis
  proof (cases res)
    case None
    then have "executeOrderJob deps oid w = (None, w1)"
      using rw ord by (simp add: executeOrderJob_def)
    then show ?thesis using loop rw None by (simp add: canonical_orders_def)
  next
    case (Some err)
    then have f: "failed_attempt_log (log_statuses w1 oid)" "log_ids_ok w1 oid"
      using loop rw by simp_all
    then have nf: "\<not> hasStatus (listEvents (store w1) oid) Failed"
      by (auto simp add: failed_attempt_log_def log_statuses_def hasStatus_iff)
    have ex: "listEvents (store (snd (executeOrderJob deps oid w))) oid
                = listEvents (store w1) oid
                  @ [EvFailed oid (clock w1 (clock_calls w1)) (thrown_message err)]"
      using rw ord Some nf by (simp add: executeOrderJob_def Let_def nowMs_def)
    show ?thesis using f unfolding log_statuses_def log_ids_ok_def ex
      by (auto simp add: failed_attempt_log_def canonical_orders_def)
  qed
qed

lemma post_execute_log:
  assumes sub: "fst (post_execute body w) = Reply200 oid"
      and fresh: "listEvents (store w) oid = []"
  shows "oid = uuidv4 w (uuidv4_calls w)
       \<and> listEvents (store (snd (post_execute body w))) oid
           = [EvPending oid (clock w (clock_calls w + 1))]
       \<and> (\<exists>order. getActiveOrder (store (snd (post_execute body w))) oid = Some order
                   \<and> orderId order = oid)"
proof (cases "validateExecuteOrder body")
  case (Inl err)
  then show ?thesis using sub by (simp add: post_execute_def)
next
  case (Inr v)
  let ?order = "\<lparr>orderId = uuidv4 w (uuidv4_calls w), orderType = Market, tokenIn = req_tokenIn v,
                 tokenOut = req_tokenOut v, amount = req_amount v,
                 slippageBps = req_slippageBps v, createdAtMs = clock w (clock_calls w)\<rparr>"
  show ?thesis
  proof (cases "insertOrder ?order (db w)")
    case (Inl err)
    then show ?thesis using sub Inr
      by (simp add: post_execute_def Let_def next_uuid_def nowMs_def log_call_def)
  next
    case ins: (Inr t)
    have oid: "oid = uuidv4 w (uuidv4_calls w)"
      using sub Inr ins by (simp add: post_execute_def Let_def next_uuid_def nowMs_def log_call_def)
    show ?thesis using Inr ins fresh unfolding oid
      by (auto simp add: post_execute_def Let_def next_uuid_def nowMs_def enqueue_def emitPending_def
            w_publish_def w_appendEvent_def putActiveOrder_def listEvents_def getActiveOrder_def
            appendEvent_def log_call_def split: option.splits)
  qed
qed

lemma canonical_sorted_distinct:
  "map status L \<in> set canonical_orders \<Longrightarrow> sorted (map rank_of L) \<and> distinct (map status L)"
proof -
  assume a: "map status L \<in> set canonical_orders"
  have m: "map rank_of L = map statusRank (map status L)" by (simp add: rank_of_def)
  show ?thesis unfolding m using a by (auto simp add: canonical_orders_def)
qed


lemma clock_calls_emit_unless [simp]:
  "clock_calls (emit_unless r mk w) = (if r then clock_calls w else clock_calls w + 1)"
  by (simp add: emit_unless_def nowMs_def emitEvent_def w_publish_def w_appendEvent_def log_call_def)

lemma store_orders_emit_unless [simp]:
  "getActiveOrder (store (emit_unless r mk w)) oid = getActiveOrder (store w) oid"
  by (simp add: emit_unless_def nowMs_def getActiveOrder_def append_all_def appendEvent_def
        unless_list_def)

lemma failing_attempt_any:
  "processOrderOnce failing_deps order (w :: unit World) =
     (if terminal_log (listEvents (store w) (orderId order)) then (None, w)
      else (Some (ErrorObj ''routing failed''),
            emit_unless (hasStatus (listEvents (store w) (orderId order)) Routing)
              (EvRouting (orderId order)) w))"
  by (simp add: processOrderOnce_def failing_deps_def Let_def terminal_log_def)

text \<open>
  The events of the order that \<open>body0\<close> submits in \<open>world0\<close> when every routing attempt
  fails.
\<close>

lemma failed_order_script:
  "fst (post_execute body0 world0) = Reply200 ''order-''
   \<and> listEvents (store (snd (executeOrderJob failing_deps ''order-''
                              (snd (post_execute body0 world0))))) ''order-''
       = [EvPending ''order-'' 1001, EvRouting ''order-'' 1002,
          EvFailed ''order-'' 1003 ''routing failed'']"
proof -
  define e where "e = ErrorObj ''routing failed''"
  define order where "order = \<lparr>orderId = ''order-'', orderType = Market, tokenIn = ''SOL'',
                         tokenOut = ''USDC'', amount = 10, slippageBps = 50, createdAtMs = 1000\<rparr>"
  define w1 where "w1 = snd (post_execute body0 world0)"
  define run where "run = (\<lambda>attempt::int. processOrderOnce failing_deps order)"
  define a1 where "a1 = snd (processOrderOnce failing_deps order w1)"
  define w2 where "w2 = w_sleep (computeExponentialBackoffMs 2 1000)
                         (log_call (CallWarnRetry 1 2 (computeExponentialBackoffMs 2 1000)
                                      (thrown_message e)) a1)"
  define a2 where "a2 = snd (processOrderOnce failing_deps order w2)"
  define w3 where "w3 = w_sleep (computeExponentialBackoffMs 3 1000)
                         (log_call (CallWarnRetry 2 3 (computeExponentialBackoffMs 3 1000)
                                      (thrown_message e)) a2)"
  define a3 where "a3 = snd (processOrderOnce failing_deps order w3)"
  define ws where "ws = (\<lambda>a::int. if a = 1 then w1 else if a = 2 then w2 else w3)"
  define after where "after = (\<lambda>a::int. if a = 1 then a1 else if a = 2 then a2 else a3)"
  have oid: "orderId order = ''order-''" by (simp add: order_def)
  have sub: "fst (post_execute body0 world0) = Reply200 ''order-''"
    by (simp add: body0_valid post_execute_def Let_def next_uuid_def nowMs_def log_call_def
          world0_def insertOrder_body0)
  have ord: "getActiveOrder (store w1) ''order-'' = Some order"
    unfolding w1_def order_def
    by (simp add: body0_valid post_execute_def Let_def next_uuid_def nowMs_def enqueue_def
          emitPending_def w_publish_def w_appendEvent_def putActiveOrder_def getActiveOrder_def
          appendEvent_def log_call_def world0_def insertOrder_body0)
  have l1: "listEvents (store w1) ''order-'' = [EvPending ''order-'' 1001]"
    unfolding w1_def
    by (simp add: body0_valid post_execute_def Let_def next_uuid_def nowMs_def enqueue_def
          emitPending_def w_publish_def w_appendEvent_def putActiveOrder_def listEvents_def
          appendEvent_def log_call_def world0_def insertOrder_body0)
  have ck: "clock w1 = (\<lambda>n. 1000 + int n)" "clock_calls w1 = 2"
    unfolding w1_def
    by (simp_all add: body0_valid post_execute_def Let_def next_uuid_def nowMs_def enqueue_def
          emitPending_def w_publish_def w_appendEvent_def log_call_def world0_def insertOrder_body0)
  have nt1: "\<not> terminal_log (listEvents (store w1) ''order-'')"
    by (simp add: l1 terminal_log_def lastStatus_def)
  have a1v: "a1 = emit_unless False (EvRouting ''order-'') w1"
    unfolding a1_def using nt1 by (simp add: failing_attempt_any oid l1 hasStatus_iff)
  have r1: "processOrderOnce failing_deps order w1 = (Some e, a1)"
    unfolding a1v using nt1 by (simp add: failing_attempt_any oid l1 hasStatus_iff e_def)
  have l2: "listEvents (store w2) ''order-'' = [EvPending ''order-'' 1001, EvRouting ''order-'' 1002]"
    unfolding w2_def a1v by (simp add: l1 ck unless_list_def)
  have c2: "clock w2 = (\<lambda>n. 1000 + int n)" "clock_calls w2 = 3"
    unfolding w2_def a1v by (simp_all add: ck)
  have nt2: "\<not> terminal_log (listEvents (store w2) ''order-'')"
    by (simp add: l2 terminal_log_def lastStatus_def)
  have a2v: "a2 = w2"
    unfolding a2_def using nt2 by (simp add: failing_attempt_any oid l2 hasStatus_iff emit_unless_def)
  have r2: "processOrderOnce failing_deps order w2 = (Some e, a2)"
    unfolding a2v using nt2 by (simp add: failing_attempt_any oid l2 hasStatus_iff e_def emit_unless_def)
  have l3: "listEvents (store w3) ''order-'' = [EvPending ''order-'' 1001, EvRouting ''order-'' 1002]"
    unfolding w3_def a2v by (simp add: l2)
  have c3: "clock w3 = (\<lambda>n. 1000 + int n)" "clock_calls w3 = 3"
    unfolding w3_def a2v by (simp_all add: c2)
  have nt3: "\<not> terminal_log (listEvents (store w3) ''order-'')"
    by (simp add: l3 terminal_log_def lastStatus_def)
  have a3v: "a3 = w3"
    unfolding a3_def using nt3 by (simp add: failing_attempt_any oid l3 hasStatus_iff emit_unless_def)
  have r3: "processOrderOnce failing_deps order w3 = (Some e, a3)"
    unfolding a3v using nt3 by (simp add: failing_attempt_any oid l3 hasStatus_iff e_def emit_unless_def)
  have fails: "\<And>a. 1 \<le> a \<Longrightarrow> a < 3 \<Longrightarrow> run a (ws a) = (Some ((\<lambda>a. e) a), after a)"
  proof -
    fix a :: int assume "1 \<le> a" "a < 3"
    then have "a = 1 \<or> a = 2" by auto
    then show "run a (ws a) = (Some ((\<lambda>a. e) a), after a)"
      using r1 r2 by (auto simp add: run_def ws_def after_def)
  qed
  have nxt: "\<And>a. 1 \<le> a \<Longrightarrow> a < 3 \<Longrightarrow>
                 ws (a + 1) = w_sleep (computeExponentialBackoffMs (a + 1) 1000)
                    (log_call (CallWarnRetry a (a + 1) (computeExponentialBackoffMs (a + 1) 1000)
                                 (thrown_message ((\<lambda>a. e) a))) (after a))"
  proof -
    fix a :: int assume "1 \<le> a" "a < 3"
    then have "a = 1 \<or> a = 2" by auto
    then show "ws (a + 1) = w_sleep (computeExponentialBackoffMs (a + 1) 1000)
                    (log_call (CallWarnRetry a (a + 1) (computeExponentialBackoffMs (a + 1) 1000)
                                 (thrown_message ((\<lambda>a. e) a))) (after a))"
      by (auto simp add: ws_def after_def w2_def w3_def)
  qed
  have last: "run 3 (ws 3) = (Some e, after 3)" "Some e = None \<or> (3::int) = 3"
    using r3 by (simp_all add: run_def ws_def after_def)
  have loop: "runWithRetries 3 1000 run w1 = (Some e, a3)"
    unfolding runWithRetries_def
    using retry_loop_path[where ws = ws and after = after and err = "\<lambda>a. e" and k = 3 and run = run
            and m = 3 and b = 1000 and r = "Some e" and a = 1 and n = 2, OF _ fails nxt last]
    by (simp add: ws_def after_def)
  have job: "snd (executeOrderJob failing_deps ''order-'' w1)
               = emitEvent (EvFailed ''order-'' 1003 ''routing failed'')
                   (log_call (CallFailOrder ''order-'' ''routing failed'' 1003)
                      (w3\<lparr>clock_calls := 4, db := failOrder ''order-'' ''routing failed'' 1003 (db w3)\<rparr>))"
    using loop[unfolded run_def] ord l3 c3 a3v
    by (simp add: executeOrderJob_def ORDER_MAX_ATTEMPTS_def ORDER_BACKOFF_BASE_MS_def Let_def
          nowMs_def e_def hasStatus_iff log_call_def del: emitEvent_record)
  have "listEvents (store (snd (executeOrderJob failing_deps ''order-'' w1))) ''order-''
       = [EvPending ''order-'' 1001, EvRouting ''order-'' 1002,
          EvFailed ''order-'' 1003 ''routing failed'']"
    unfolding job by (simp add: l3 log_call_def)
  then show ?thesis using sub unfolding w1_def by simp
qed



text \<open>
  A connection that subscribes once the submission has been answered finds \<open>pending\<close>
  in the store when it reads its backlog.
\<close>

lemma pending_stored:
  assumes "gw_inv pe W oid h s" "status pe = Pending" "g_api s = []"
  shows "hasStatus (listEvents (g_store s) oid) Pending"
proof -
  from assms(1) obtain a where "api_inv pe W a oid s" unfolding gw_inv_def by blast
  then have "sort_key rank_of (listEvents (g_store s) oid) = pe # take a W"
    using assms(3) by (simp add: api_inv_def)
  then have "set (listEvents (g_store s) oid) = set (pe # take a W)" by (metis set_sort)
  then have "pe \<in> set (listEvents (g_store s) oid)" by simp
  then have "status pe \<in> status ` set (listEvents (g_store s) oid)" by (rule imageI)
  then show ?thesis using assms(2) by (simp add: hasStatus_iff)
qed

lemma g_api_step:
  "g_api s = [] \<Longrightarrow> g_api (gw_step oid h s step) = []"
  by (cases step) (simp_all split: option.splits list.splits)

lemma subscribed_step:
  "g_pc (gw_step oid h s step) = Subscribed
   \<Longrightarrow> g_pc s = Subscribed \<or> (step = GwSubscribe \<and> g_pc s = Connecting)"
  by (cases step) (simp_all split: option.splits list.splits if_splits)

lemma after_reply_backlog_has_pending:
  assumes srt: "sorted (map rank_of (pe # W))" and d: "distinct (map status (pe # W))"
      and ids: "\<forall>e\<in>set (pe # W). event_orderId e = oid"
      and sp: "status pe = Pending"
  shows "gw_inv pe W oid h s \<Longrightarrow> (g_pc s = Subscribed \<longrightarrow> g_api s = [])
         \<Longrightarrow> subscribes_after_reply oid h s steps \<Longrightarrow> backlog_has_pending oid h s steps"
proof (induction steps arbitrary: s)
  case Nil
  then show ?case by simp
next
  case (Cons step steps)
  have rd: "step = GwListEvents \<and> g_pc s = Subscribed
            \<longrightarrow> hasStatus (listEvents (g_store s) oid) Pending"
    using pending_stored[OF Cons.prems(1) sp] Cons.prems(2) by simp
  have inv: "gw_inv pe W oid h (gw_step oid h s step)"
    by (rule gw_inv_step[OF srt d ids sp Cons.prems(1) rd])
  have j: "g_pc (gw_step oid h s step) = Subscribed \<longrightarrow> g_api (gw_step oid h s step) = []"
  proof
    assume "g_pc (gw_step oid h s step) = Subscribed"
    then consider "g_pc s = Subscribed" | "step = GwSubscribe" "g_pc s = Connecting"
      using subscribed_step by blast
    then have "g_api s = []"
    proof cases
      case 1
      then show ?thesis using Cons.prems(2) by simp
    next
      case 2
      then show ?thesis using Cons.prems(3) by (simp add: pending_published_def)
    qed
    then show "g_api (gw_step oid h s step) = []" by (rule g_api_step)
  qed
  show ?case using rd Cons.IH[OF inv j] Cons.prems(3) by simp
qed

lemma after_reply_reads_pending:
  assumes "sorted (map rank_of L)" "distinct (map status L)" "\<forall>e\<in>set L. event_orderId e = oid"
      and "map status L \<noteq> []" "hd (map status L) = Pending"
      and "subscribes_after_reply oid h (gw_init L) steps"
  shows "backlog_has_pending oid h (gw_init L) steps"
proof -
  obtain pe W where L: "L = pe # W" using assms(4) by (cases L) auto
  have sp: "status pe = Pending" using assms(5) L by simp
  show ?thesis unfolding L
    by (rule after_reply_backlog_has_pending[OF assms(1,2,3)[unfolded L] sp gw_inv_init _
              assms(6)[unfolded L]])
       (simp add: gw_init_def)
qed

text \<open>
  Claim C1, as stated: the statuses delivered on every connection are a prefix of a
  canonical sequence. It fails for a connection that reads its backlog before the
  submission path has stored \<open>pending\<close>. The handler dispatches the job before it emits
  \<open>pending\<close>, so the worker can emit \<open>routing\<close> first; a connection that subscribes,
  reads the backlog and flushes at that moment is sent \<open>routing\<close>, and \<open>pending\<close>
  after it when the submission path publishes it. The order is the one that \<open>body0\<close>
  submits in \<open>world0\<close>, with a router that fails.
\<close>

theorem early_connection_counterexample:
  "fst (post_execute body0 world0) = Reply200 ''order-''
   \<and> map status (listEvents (store (snd (executeOrderJob failing_deps ''order-''
                                         (snd (post_execute body0 world0))))) ''order-'')
       = [Pending, Routing, Failed]
   \<and> delivered_statuses
        (gw_run ''order-'' 7
           (listEvents (store (snd (executeOrderJob failing_deps ''order-''
                                      (snd (post_execute body0 world0))))) ''order-'')
           schedule_early)
       = [Routing, Pending]
   \<and> \<not> lifecycle_prefix [Routing, Pending]"
proof -
  have run: "delivered_statuses
        (gw_run ''order-'' 7
           [EvPending ''order-'' 1001, EvRouting ''order-'' 1002,
            EvFailed ''order-'' 1003 ''routing failed'']
           schedule_early)
       = [Routing, Pending]"
    by (simp add: delivered_statuses_def gw_run_def gw_init_def schedule_early_def
        appendEvent_def listEvents_def publish_def subscribe_def flush_backlog_def js_sort_def
        sortByLifecycle_def send_unsent_def safeSend_def on_bus_event_def subscribed_handlers_def
        mem_new_def set_add_def call_handlers_def publish_to_conn_def Let_def)
  have np: "\<not> lifecycle_prefix [Routing, Pending]"
    by (simp add: lifecycle_prefix_def canonical_orders_def)
  show ?thesis using failed_order_script run np by simp
qed

text \<open>
  Claim C1, amended. Take any submission that was answered with an order identifier that
  had no events before, and any router; the events of the order are the log the submission
  path and the job leave behind, and their statuses are one of the three canonical
  sequences. Let the submission path emit the first of them and the worker the others,
  and let a connection for that order run against them, under any interleaving of the
  appends and publishes of the two writers with the steps of the connection handler and
  with the closing of the socket. Then no status is delivered twice on the connection.
  If moreover the connection finds \<open>pending\<close> in the store when it reads its backlog (as
  every connection opened with the identifier from the reply does), then the events written
  to the socket are a prefix of the order's events in lifecycle order, so the statuses
  delivered are a prefix of a canonical sequence: before, during or after the execution,
  also when the worker has appended before \<open>pending\<close> is stored and when \<open>pending\<close>
  is published while the connection is buffering.
\<close>

theorem gateway_delivers_lifecycle_prefix:
  assumes sub: "fst (post_execute body w) = Reply200 oid"
      and fresh: "listEvents (store w) oid = []"
  shows "(let w1 = snd (post_execute body w);
              w2 = snd (executeOrderJob deps oid w1);
              script = listEvents (store w2) oid;
              s = gw_run oid h script steps
          in map status script \<in> set canonical_orders
           \<and> distinct (delivered_statuses s)
           \<and> (subscribes_after_reply oid h (gw_init script) steps
                \<longrightarrow> backlog_has_pending oid h (gw_init script) steps)
           \<and> (backlog_has_pending oid h (gw_init script) steps
                \<longrightarrow> prefix (ws_sent (g_conn s)) script
                    \<and> lifecycle_prefix (delivered_statuses s)))"
proof -
  let ?w1 = "snd (post_execute body w)"
  let ?L = "listEvents (store (snd (executeOrderJob deps oid ?w1))) oid"
  let ?s = "gw_run oid h ?L steps"
  from post_execute_log[OF sub fresh] obtain order where
    l1: "listEvents (store ?w1) oid = [EvPending oid (clock w (clock_calls w + 1))]"
    and ord: "getActiveOrder (store ?w1) oid = Some order" and oid: "orderId order = oid"
    by blast
  have r: "resumable (log_statuses ?w1 oid)" "log_ids_ok ?w1 oid"
    by (simp_all add: resumable_def log_statuses_def log_ids_ok_def l1)
  have can: "map status ?L \<in> set canonical_orders" and ids: "\<forall>e\<in>set ?L. event_orderId e = oid"
    using job_log_canonical[OF ord oid r, of deps]
    by (simp_all add: log_statuses_def log_ids_ok_def list_all_iff)
  have sd: "sorted (map rank_of ?L)" "distinct (map status ?L)"
    using canonical_sorted_distinct[OF can] by simp_all
  have ne: "map status ?L \<noteq> []" and hdp: "hd (map status ?L) = Pending"
    using can by (auto simp add: canonical_orders_def)
  have dist: "distinct (delivered_statuses ?s)"
    by (rule gateway_never_repeats)
  have lp: "prefix (ws_sent (g_conn ?s)) ?L \<and> lifecycle_prefix (delivered_statuses ?s)"
    if rd: "backlog_has_pending oid h (gw_init ?L) steps"
  proof -
    have pre: "prefix (ws_sent (g_conn ?s)) ?L"
      by (rule gateway_sends_prefix[OF sd ids ne hdp rd])
    then have pm: "prefix (delivered_statuses ?s) (map status ?L)"
      by (simp add: delivered_statuses_def map_mono_prefix)
    have "lifecycle_prefix (delivered_statuses ?s)"
      unfolding lifecycle_prefix_def list_ex_iff using pm can by blast
    then show ?thesis using pre by simp
  qed
  have ar: "backlog_has_pending oid h (gw_init ?L) steps"
    if "subscribes_after_reply oid h (gw_init ?L) steps"
    by (rule after_reply_reads_pending[OF sd ids ne hdp that])
  show ?thesis using can dist lp ar by (simp add: Let_def)
qed

theorem gateway_delivers_lifecycle_prefix_witness:
  "fst (post_execute body0 world0) = Reply200 ''order-''
   \<and> listEvents (store world0) ''order-'' = []
   \<and> backlog_has_pending ''order-'' 7
        (gw_init (listEvents (store (snd (executeOrderJob failing_deps ''order-''
                                            (snd (post_execute body0 world0))))) ''order-''))
        schedule0
   \<and> lifecycle_prefix (delivered_statuses
        (gw_run ''order-'' 7
           (listEvents (store (snd (executeOrderJob failing_deps ''order-''
                                      (snd (post_execute body0 world0))))) ''order-'')
           schedule0))
   \<and> subscribes_after_reply ''order-'' 7
        (gw_init (listEvents (store (snd (executeOrderJob failing_deps ''order-''
                                            (snd (post_execute body0 world0))))) ''order-''))
        schedule_late
   \<and> lifecycle_prefix (delivered_statuses
        (gw_run ''order-'' 7
           (listEvents (store (snd (executeOrderJob failing_deps ''order-''
                                      (snd (post_execute body0 world0))))) ''order-'')
           schedule_late))"
proof -
  have fresh: "listEvents (store world0) ''order-'' = []"
    by (simp add: world0_def listEvents_def)
  have sub: "fst (post_execute body0 world0) = Reply200 ''order-''"
    using failed_order_script by simp
  have rd: "backlog_has_pending ''order-'' 7
        (gw_init (listEvents (store (snd (executeOrderJob failing_deps ''order-''
                                            (snd (post_execute body0 world0))))) ''order-''))
        schedule0"
    unfolding failed_order_script[THEN conjunct2]
    by (simp add: gw_init_def schedule0_def appendEvent_def listEvents_def publish_def
        subscribe_def subscribed_handlers_def mem_new_def set_add_def call_handlers_def
        publish_to_conn_def on_bus_event_def hasStatus_def Let_def)
  have ar: "subscribes_after_reply ''order-'' 7
        (gw_init (listEvents (store (snd (executeOrderJob failing_deps ''order-''
                                            (snd (post_execute body0 world0))))) ''order-''))
        schedule_late"
    unfolding failed_order_script[THEN conjunct2]
    by (simp add: gw_init_def schedule_late_def appendEvent_def listEvents_def publish_def
        subscribe_def subscribed_handlers_def mem_new_def set_add_def call_handlers_def
        publish_to_conn_def on_bus_event_def pending_published_def Let_def)
  have a: "lifecycle_prefix (delivered_statuses
        (gw_run ''order-'' 7
           (listEvents (store (snd (executeOrderJob failing_deps ''order-''
                                      (snd (post_execute body0 world0))))) ''order-'')
           schedule0))"
    using gateway_delivers_lifecycle_prefix[OF sub fresh, of failing_deps 7 schedule0] rd
    unfolding Let_def by simp
  have b: "lifecycle_prefix (delivered_statuses
        (gw_run ''order-'' 7
           (listEvents (store (snd (executeOrderJob failing_deps ''order-''
                                      (snd (post_execute body0 world0))))) ''order-'')
           schedule_late))"
    using gateway_delivers_lifecycle_prefix[OF sub fresh, of failing_deps 7 schedule_late] ar
    unfolding Let_def by simp
  show ?thesis using sub fresh rd ar a b by simp
qed

text \<open>
  The first run of the witness: the store holds \<open>routing\<close> before \<open>pending\<close>, \<open>pending\<close> is
  published while the connection is buffering, and the connection still delivers the
  lifecycle in order.
\<close>

lemma gateway_example:
  "listEvents (g_store (gw_run ''order-'' 7
       [EvPending ''order-'' 1001, EvRouting ''order-'' 1002,
        EvFailed ''order-'' 1003 ''routing failed''] schedule0)) ''order-''
     = [EvRouting ''order-'' 1002, EvPending ''order-'' 1001,
        EvFailed ''order-'' 1003 ''routing failed'']
   \<and> delivered_statuses (gw_run ''order-'' 7
       [EvPending ''order-'' 1001, EvRouting ''order-'' 1002,
        EvFailed ''order-'' 1003 ''routing failed''] schedule0)
     = [Pending, Routing, Failed]"
  by (simp add: delivered_statuses_def gw_run_def gw_init_def schedule0_def
        appendEvent_def listEvents_def publish_def subscribe_def flush_backlog_def js_sort_def
        sortByLifecycle_def send_unsent_def safeSend_def on_bus_event_def subscribed_handlers_def
        mem_new_def set_add_def call_handlers_def publish_to_conn_def Let_def)

end
